theory Spec2Isabelle
  imports Complex_Main "HOL-Library.Product_Lexorder" "HOL-Library.Multiset"
begin

section \<open>Calendar dates\<close>

text \<open>
  The program works on \<^verbatim>\<open>datetime.date\<close> values. A date is the triple (year, month, day);
  Python compares dates field by field from the year down, which is the lexicographic
  order of triples. \<open>valid_date\<close> is the invariant of every Python date object
  (\<^verbatim>\<open>MINYEAR = 1\<close>, \<^verbatim>\<open>MAXYEAR = 9999\<close>); the constructor \<^verbatim>\<open>date(y, m, d)\<close> raises
  \<^verbatim>\<open>ValueError\<close> outside it (\<open>mk_date\<close>).
\<close>

type_synonym date = "int \<times> nat \<times> nat"

datatype exn = ValueError | OverflowError | KeyError | FileNotFoundError | ResponseError | OtherError nat

definition is_leap :: "int \<Rightarrow> bool" where
  "is_leap y = (y mod 4 = 0 \<and> (y mod 100 \<noteq> 0 \<or> y mod 400 = 0))"

text \<open>\<^verbatim>\<open>calendar.monthrange(y, m)[1]\<close>: the number of days of month \<open>m\<close> of year \<open>y\<close>.\<close>

definition days_in_month :: "int \<Rightarrow> nat \<Rightarrow> nat" where
  "days_in_month y m =
     (if m = 2 then (if is_leap y then 29 else 28)
      else if m = 4 \<or> m = 6 \<or> m = 9 \<or> m = 11 then 30 else 31)"

definition valid_date :: "date \<Rightarrow> bool" where
  "valid_date dt = (case dt of (y, m, d) \<Rightarrow>
     1 \<le> y \<and> y \<le> 9999 \<and> 1 \<le> m \<and> m \<le> 12 \<and> 1 \<le> d \<and> d \<le> days_in_month y m)"

definition mk_date :: "int \<Rightarrow> nat \<Rightarrow> nat \<Rightarrow> exn + date" where
  "mk_date y m d = (if valid_date (y, m, d) then Inr (y, m, d) else Inl ValueError)"

text \<open>
  \<^verbatim>\<open>date(current.year, current.month, monthrange(current.year, current.month)[1])\<close>
  (lines 65 and 150): the last day of the month of \<open>current\<close>.
\<close>

definition month_end :: "date \<Rightarrow> date" where
  "month_end dt = (case dt of (y, m, d) \<Rightarrow> (y, m, days_in_month y m))"

text \<open>
  \<^verbatim>\<open>dt + relativedelta(months=k)\<close>: the month moves forward by \<open>k\<close>, the year is carried,
  and the day is kept unless the target month is shorter, in which case it is cut to that
  month's last day. The day is never moved forward to the end of a longer month. A year
  past 9999 raises \<^verbatim>\<open>ValueError\<close>.
\<close>

definition add_months :: "nat \<Rightarrow> date \<Rightarrow> exn + date" where
  "add_months k dt = (case dt of (y, m, d) \<Rightarrow>
     (let t = m + k - 1; y' = y + int (t div 12); m' = t mod 12 + 1
      in if y' > 9999 then Inl ValueError
         else Inr (y', m', min d (days_in_month y' m'))))"

text \<open>\<^verbatim>\<open>dt + timedelta(days=1)\<close>; past 9999-12-31 it raises \<^verbatim>\<open>OverflowError\<close>.\<close>

definition next_day :: "date \<Rightarrow> exn + date" where
  "next_day dt = (case dt of (y, m, d) \<Rightarrow>
     (if d < days_in_month y m then Inr (y, m, d + 1)
      else if m < 12 then Inr (y, m + 1, 1)
      else if y < 9999 then Inr (y + 1, 1, 1)
      else Inl OverflowError))"

section \<open>The chunking loop of \<^verbatim>\<open>_getRawDailyData\<close>\<close>

text \<open>
  Lines 65 to 74: the end of the chunk that starts at \<open>current\<close>. In high-precision mode it
  is the end of the month of \<open>current\<close>; otherwise seven months are added to that date. The
  result is cut to \<open>stop_date\<close>.
\<close>

definition chunk_end :: "bool \<Rightarrow> date \<Rightarrow> date \<Rightarrow> exn + date" where
  "chunk_end hiprecision stop_date current =
     (case (if hiprecision then Inr (month_end current)
            else add_months 7 (month_end current)) of
        Inl e \<Rightarrow> Inl e
      | Inr lastDateOfDailyChunk \<Rightarrow> Inr (min stop_date lastDateOfDailyChunk))"

text \<open>
  The dates visited by the loop of lines 63 to 81, without the fetch and the sleep: the
  list of (chunk start, chunk end) pairs in the order the loop requests them. The loop with
  its effects is \<open>raw_daily_loop\<close> below, and \<open>raw_daily_loop_chunks\<close> shows that it requests
  exactly these pairs. The loop is a \<^verbatim>\<open>while\<close>, so the function is partial and its
  termination is a theorem (\<open>chunk_loop_terminates\<close>).
\<close>

partial_function (option) chunk_loop ::
  "bool \<Rightarrow> date \<Rightarrow> date \<Rightarrow> (date \<times> date) list \<Rightarrow> (exn + (date \<times> date) list) option" where
  "chunk_loop hiprecision stop_date current acc =
     (if current < stop_date then
        (case chunk_end hiprecision stop_date current of
           Inl e \<Rightarrow> Some (Inl e)
         | Inr lastDateOfDailyChunk \<Rightarrow>
            (case next_day lastDateOfDailyChunk of
               Inl e \<Rightarrow> Some (Inl e)
             | Inr current' \<Rightarrow>
                chunk_loop hiprecision stop_date current' (acc @ [(current, lastDateOfDailyChunk)])))
      else Some (Inr acc))"

declare chunk_loop.simps [code]

text \<open>
  Lines 49 to 51 followed by the loop: \<open>start_date\<close> is the first of January of
  \<open>start_year\<close>, \<open>stop_date\<close> is the earlier of the 31st of December of \<open>stop_year\<close> and
  today. \<^verbatim>\<open>date.today()\<close> is the parameter \<open>today\<close>.
\<close>

definition chunker :: "int \<Rightarrow> int \<Rightarrow> bool \<Rightarrow> date \<Rightarrow> (exn + (date \<times> date) list) option" where
  "chunker start_year stop_year hiprecision today =
     (case mk_date start_year 1 1 of
        Inl e \<Rightarrow> Some (Inl e)
      | Inr start_date \<Rightarrow>
         (case mk_date stop_year 12 31 of
            Inl e \<Rightarrow> Some (Inl e)
          | Inr stop_end \<Rightarrow> chunk_loop hiprecision (min stop_end today) start_date []))"

text \<open>The days a chunk covers: the valid dates from its start to its end, both included.\<close>

definition days_of :: "date \<times> date \<Rightarrow> date set" where
  "days_of c = {d. valid_date d \<and> fst c \<le> d \<and> d \<le> snd c}"

text \<open>
  The spec's chunk-end rule in its own words: the last day of the calendar month that is
  \<open>k\<close> months after the month of \<open>dt\<close>.
\<close>

definition last_day_of_month_after :: "nat \<Rightarrow> date \<Rightarrow> date" where
  "last_day_of_month_after k dt = (case dt of (y, m, d) \<Rightarrow>
     (let t = m + k - 1; y' = y + int (t div 12); m' = t mod 12 + 1
      in (y', m', days_in_month y' m')))"

section \<open>Values of a pandas column\<close>

text \<open>
  A cell of a numeric column is a float. The model keeps what the program's logic depends
  on: a missing value (\<open>NaN\<close>), the two infinities that a division by zero produces, and
  the finite values, which are exact rationals. Rounding and the sign of zero are not
  modelled. pandas never raises on a float division: \<open>x / 0\<close> is an infinity, and
  \<open>0 / 0\<close> is \<open>NaN\<close>.
\<close>

datatype fval = NaN | NInf | Fin rat | PInf

fun fadd :: "fval \<Rightarrow> fval \<Rightarrow> fval" where
  "fadd NaN _ = NaN"
| "fadd _ NaN = NaN"
| "fadd (Fin a) (Fin b) = Fin (a + b)"
| "fadd PInf NInf = NaN"
| "fadd NInf PInf = NaN"
| "fadd PInf _ = PInf"
| "fadd _ PInf = PInf"
| "fadd NInf _ = NInf"
| "fadd _ NInf = NInf"

fun fsign :: "fval \<Rightarrow> int" where
  "fsign NaN = 0"
| "fsign NInf = - 1"
| "fsign PInf = 1"
| "fsign (Fin a) = (if a < 0 then - 1 else if a = 0 then 0 else 1)"

fun fmul :: "fval \<Rightarrow> fval \<Rightarrow> fval" where
  "fmul NaN _ = NaN"
| "fmul _ NaN = NaN"
| "fmul (Fin a) (Fin b) = Fin (a * b)"
| "fmul x y = (let s = fsign x * fsign y in if s = 0 then NaN else if s < 0 then NInf else PInf)"

fun fdiv :: "fval \<Rightarrow> fval \<Rightarrow> fval" where
  "fdiv NaN _ = NaN"
| "fdiv _ NaN = NaN"
| "fdiv (Fin a) (Fin b) =
     (if b = 0 then (if a = 0 then NaN else if a < 0 then NInf else PInf) else Fin (a / b))"
| "fdiv (Fin a) _ = Fin 0"
| "fdiv x (Fin b) = (if (fsign x < 0) = (b < 0) then PInf else NInf)"
| "fdiv _ _ = NaN"

text \<open>pandas reductions skip missing values (\<^verbatim>\<open>skipna=True\<close>).\<close>

definition notna :: "fval list \<Rightarrow> fval list" where
  "notna vs = filter (\<lambda>v. v \<noteq> NaN) vs"

text \<open>\<^verbatim>\<open>.mean()\<close>: the mean of the values that are not missing, \<open>NaN\<close> when there is none.\<close>

definition fmean :: "fval list \<Rightarrow> fval" where
  "fmean vs = (let xs = notna vs in
     if xs = [] then NaN else fdiv (foldl fadd (Fin 0) xs) (Fin (of_nat (length xs))))"

text \<open>
  \<^verbatim>\<open>.median()\<close>: the values that are not missing are sorted (through an order-preserving
  key); the median is the middle one, or the mean of the two middle ones.
\<close>

fun fkey :: "fval \<Rightarrow> int \<times> rat" where
  "fkey NInf = (- 1, 0)"
| "fkey (Fin a) = (0, a)"
| "fkey PInf = (1, 0)"
| "fkey NaN = (2, 0)"

definition unkey :: "int \<times> rat \<Rightarrow> fval" where
  "unkey k = (if fst k < 0 then NInf else if fst k = 0 then Fin (snd k)
              else if fst k = 1 then PInf else NaN)"

definition fmedian :: "fval list \<Rightarrow> fval" where
  "fmedian vs = (let xs = map unkey (sort (map fkey (notna vs))); n = length xs in
     if n = 0 then NaN
     else if odd n then xs ! (n div 2)
     else fdiv (fadd (xs ! (n div 2 - 1)) (xs ! (n div 2))) (Fin 2))"

text \<open>\<^verbatim>\<open>.ffill()\<close>: a missing value takes the last value above it that is not missing.\<close>

fun ffill_from :: "fval \<Rightarrow> fval list \<Rightarrow> fval list" where
  "ffill_from prev [] = []"
| "ffill_from prev (x # xs) = (if x = NaN then prev # ffill_from prev xs else x # ffill_from x xs)"

definition ffill :: "fval list \<Rightarrow> fval list" where
  "ffill xs = ffill_from NaN xs"

text \<open>A column has no gap when nothing is missing from its first present value on.\<close>

definition no_gap :: "fval list \<Rightarrow> bool" where
  "no_gap xs = (NaN \<notin> set (dropWhile (\<lambda>v. v = NaN) xs))"

section \<open>Series, frames and tables\<close>

text \<open>
  A series is a one-column frame: its rows in order, each a date and a value. The frame
  that \<^verbatim>\<open>interest_over_time()\<close> returns for one keyword has the keyword's column and the
  column \<^verbatim>\<open>isPartial\<close>, or no column at all when the service has no data (\<open>None\<close>). A
  stored table has any number of named columns; it is kept by rows.
\<close>

type_synonym series = "(date \<times> fval) list"
type_synonym frame = "(date \<times> fval \<times> bool) list option"
type_synonym table = "string list \<times> (date \<times> fval list) list"
type_synonym workbook = "(string \<times> table) list"
type_synonym timeframe = "date \<times> date"

text \<open>
  \<open>getTimeframe\<close> (line 14) renders the two dates as \<^verbatim>\<open>YYYY-MM-DD YYYY-MM-DD\<close>; the model
  keeps the pair.
\<close>

definition getTimeframe :: "date \<Rightarrow> date \<Rightarrow> timeframe" where
  "getTimeframe start stop = (start, stop)"

text \<open>\<^verbatim>\<open>pd.concat\<close> of the chunk frames (lines 83 and 158): no frame at all is a \<^verbatim>\<open>ValueError\<close>.\<close>

definition concat_frames :: "frame list \<Rightarrow> exn + frame" where
  "concat_frames fs =
     (if fs = [] then Inl ValueError
      else if list_all (\<lambda>f. f = None) fs then Inr None
      else Inr (Some (concat (map (\<lambda>f. case f of None \<Rightarrow> [] | Some rs \<Rightarrow> rs) fs))))"

text \<open>\<^verbatim>\<open>.drop(columns=['isPartial'])\<close>: a \<^verbatim>\<open>KeyError\<close> when the frame has no such column.\<close>

definition drop_isPartial :: "frame \<Rightarrow> exn + series" where
  "drop_isPartial f = (case f of None \<Rightarrow> Inl KeyError
                       | Some rs \<Rightarrow> Inr (map (\<lambda>(d, v, p). (d, v)) rs))"

definition concat_daily :: "(date \<times> frame) list \<Rightarrow> exn + series" where
  "concat_daily results =
     (case concat_frames (map snd results) of Inl e \<Rightarrow> Inl e | Inr f \<Rightarrow> drop_isPartial f)"

text \<open>\<^verbatim>\<open>df[start_date:stop_date]\<close>: the rows whose date lies in the closed range.\<close>

definition slice_rows :: "date \<Rightarrow> date \<Rightarrow> (date \<times> 'a) list \<Rightarrow> (date \<times> 'a) list" where
  "slice_rows start stop rs = filter (\<lambda>r. start \<le> fst r \<and> fst r \<le> stop) rs"

definition slice_frame :: "date \<Rightarrow> date \<Rightarrow> frame \<Rightarrow> frame" where
  "slice_frame start stop f = map_option (slice_rows start stop) f"

text \<open>
  \<^verbatim>\<open>.resample('M').mean()\<close> followed by the relabelling of line 160: one row for every
  calendar month from the month of the earliest date to the month of the latest one,
  labelled with the first day of the month, holding the mean of that month's values.
  Months are numbered \<open>12 * year + month - 1\<close>.
\<close>

definition month_idx :: "date \<Rightarrow> int" where
  "month_idx dt = (case dt of (y, m, d) \<Rightarrow> 12 * y + int m - 1)"

definition idx_month_start :: "int \<Rightarrow> date" where
  "idx_month_start i = (i div 12, nat (i mod 12) + 1, 1)"

definition month_values :: "series \<Rightarrow> int \<Rightarrow> fval list" where
  "month_values s i = map snd (filter (\<lambda>r. month_idx (fst r) = i) s)"

definition resample_M_mean :: "series \<Rightarrow> series" where
  "resample_M_mean s =
     (if s = [] then []
      else let is = map (\<lambda>r. month_idx (fst r)) s
           in map (\<lambda>i. (idx_month_start i, fmean (month_values s i)))
                  [fold min is (hd is) .. fold max is (hd is)])"

text \<open>
  Assigning a frame to a column (line 161) aligns it on the index of the target: a date of
  the target that the source does not have gets \<open>NaN\<close>.
\<close>

definition reindex :: "series \<Rightarrow> date \<Rightarrow> fval" where
  "reindex s d = (case map_of s d of None \<Rightarrow> NaN | Some v \<Rightarrow> v)"

text \<open>
  \<^verbatim>\<open>left.join(right)\<close>: every row of the left frame, in order, once for each row of the
  right frame with the same date, or once with a missing right value when there is none.
\<close>

definition join_left :: "(date \<times> 'a) list \<Rightarrow> (date \<times> 'b) list \<Rightarrow> (date \<times> 'a \<times> 'b option) list" where
  "join_left ls rs =
     concat (map (\<lambda>(d, a).
        (case filter (\<lambda>r. fst r = d) rs of
           [] \<Rightarrow> [(d, a, None)]
         | ms \<Rightarrow> map (\<lambda>r. (d, a, Some (snd r))) ms)) ls)"

definition orNaN :: "fval option \<Rightarrow> fval" where
  "orNaN x = (case x of None \<Rightarrow> NaN | Some v \<Rightarrow> v)"

text \<open>
  Lines 159 to 169, and again lines 255 to 264 with other column names: the daily series
  is scaled by the monthly one. The four columns of the result are the fields of a row; the
  helper column of monthly means (\<^verbatim>\<open>_avg\<close>) is dropped at the end as in the source.
\<close>

record scaled_row =
  r_date :: date
  r_unscaled :: fval
  r_monthly :: fval
  r_scale :: fval
  r_scaled :: fval

definition scale_by_monthly :: "series \<Rightarrow> series \<Rightarrow> scaled_row list" where
  "scale_by_monthly daily monthly =
     (let dailyaverage = resample_M_mean daily;
          avg = ffill (map (\<lambda>r. reindex dailyaverage (fst r)) daily);
          complete = join_left (zip (map fst daily) (zip (map snd daily) avg)) monthly;
          mon = ffill (map (\<lambda>(d, (v, a), m). orNaN m) complete);
          scale = map2 fdiv mon (map (\<lambda>(d, (v, a), m). a) complete)
      in map (\<lambda>((d, (v, a), m), (mo, sc)).
               \<lparr>r_date = d, r_unscaled = v, r_monthly = mo, r_scale = sc, r_scaled = fmul v sc\<rparr>)
             (zip complete (zip mon scale)))"

section \<open>The outside world\<close>

text \<open>
  The program talks to the query service, draws random numbers, sleeps and reads and writes
  workbooks. The world holds what the service and the random generator will answer (the
  answer to the n-th call of each kind, whatever the request), how many calls of each kind
  were made, the trace of what the program did, in order, and the stored workbooks.
  Console output is not modelled. The keyword, the region, the category and the time zone
  only travel into the request and are left out of it.
\<close>

datatype event = NewClient | BuildPayload timeframe | InterestOverTime | Sleep rat | WriteFile string

record world =
  payload_out :: "nat \<Rightarrow> exn option"
  iot_out :: "nat \<Rightarrow> exn + frame"
  rand_out :: "nat \<Rightarrow> nat"
  n_payload :: nat
  n_iot :: nat
  n_rand :: nat
  trace :: "event list"
  files :: "string \<Rightarrow> workbook option"

definition emit :: "event \<Rightarrow> world \<Rightarrow> world" where
  "emit e w = w\<lparr>trace := trace w @ [e]\<rparr>"

text \<open>\<^verbatim>\<open>build_payload(timeframe=...)\<close>: a network call that returns nothing or raises.\<close>

definition build_payload :: "timeframe \<Rightarrow> world \<Rightarrow> exn option \<times> world" where
  "build_payload tf w =
     (payload_out w (n_payload w), emit (BuildPayload tf) (w\<lparr>n_payload := n_payload w + 1\<rparr>))"

text \<open>\<^verbatim>\<open>pytrends.interest_over_time()\<close>: a network call that returns a frame or raises.\<close>

definition interest_over_time :: "world \<Rightarrow> (exn + frame) \<times> world" where
  "interest_over_time w =
     (iot_out w (n_iot w), emit InterestOverTime (w\<lparr>n_iot := n_iot w + 1\<rparr>))"

text \<open>
  The \<^verbatim>\<open>while not fetched\<close> loop of \<open>_fetchData\<close> (lines 24 to 34). Only the call of
  \<^verbatim>\<open>build_payload\<close> stands inside the \<^verbatim>\<open>try\<close>; a \<^verbatim>\<open>ResponseError\<close> there is followed by
  a sleep of \<open>60 + 5 * attempts\<close> seconds and another round, any other exception leaves
  the function. The loop has no bound: it does not return (\<open>None\<close>) when every call raises
  \<^verbatim>\<open>ResponseError\<close>.
\<close>

partial_function (option) fetch_retry ::
  "timeframe \<Rightarrow> nat \<Rightarrow> world \<Rightarrow> (exn option \<times> world) option" where
  "fetch_retry tf attempts w =
     (case build_payload tf w of
        (None, w1) \<Rightarrow> Some (None, w1)
      | (Some ResponseError, w1) \<Rightarrow>
          fetch_retry tf (attempts + 1) (emit (Sleep (60 + 5 * of_nat attempts)) w1)
      | (Some e, w1) \<Rightarrow> Some (Some e, w1))"

declare fetch_retry.simps [code]

text \<open>
  \<open>_fetchData\<close> (lines 22 to 35): the loop, then line 35, the call of
  \<^verbatim>\<open>interest_over_time()\<close>, which stands after the loop and outside the \<^verbatim>\<open>try\<close>.
\<close>

definition fetchData :: "timeframe \<Rightarrow> world \<Rightarrow> ((exn + frame) \<times> world) option" where
  "fetchData tf w =
     (case fetch_retry tf 0 w of
        None \<Rightarrow> None
      | Some (Some e, w1) \<Rightarrow> Some (Inl e, w1)
      | Some (None, w1) \<Rightarrow> Some (interest_over_time w1))"

text \<open>
  \<^verbatim>\<open>randrange(start, stop)\<close> with a float \<open>stop\<close>, as the interpreters before Python 3.12
  run it: a \<open>stop\<close> that is not a whole number is a \<^verbatim>\<open>ValueError\<close>, and so is an empty
  range (\<open>stop \<le> start\<close>); otherwise the result is drawn from \<open>start\<close> up to \<open>stop - 1\<close>.
\<close>

definition randrange :: "int \<Rightarrow> rat \<Rightarrow> world \<Rightarrow> (exn + int) \<times> world" where
  "randrange start stop w =
     (if of_int \<lfloor>stop\<rfloor> \<noteq> stop then (Inl ValueError, w)
      else let width = \<lfloor>stop\<rfloor> - start in
        if width > 0
        then (Inr (start + int (rand_out w (n_rand w)) mod width), w\<lparr>n_rand := n_rand w + 1\<rparr>)
        else (Inl ValueError, w))"

text \<open>\<^verbatim>\<open>sleep(randrange(lo, 10*wait_time)/10)\<close> (lines 81 and 156).\<close>

definition pace :: "int \<Rightarrow> rat \<Rightarrow> world \<Rightarrow> exn option \<times> world" where
  "pace lo wait_time w =
     (case randrange lo (10 * wait_time) w of
        (Inl e, w1) \<Rightarrow> (Some e, w1)
      | (Inr r, w1) \<Rightarrow> (None, emit (Sleep (of_int r / 10)) w1))"

section \<open>\<^verbatim>\<open>_getRawDailyData\<close> and \<^verbatim>\<open>getDailyDataOnce\<close>\<close>

text \<open>
  The loop of lines 63 to 81 with its effects. \<open>results\<close> is the dictionary of line 61; its
  keys are the chunk starts, which grow, so it is the list of its items in insertion order.
\<close>

partial_function (option) raw_daily_loop ::
  "bool \<Rightarrow> rat \<Rightarrow> date \<Rightarrow> date \<Rightarrow> (date \<times> frame) list \<Rightarrow> world
     \<Rightarrow> ((exn + (date \<times> frame) list) \<times> world) option" where
  "raw_daily_loop hiprecision wait_time stop_date current results w =
     (if current < stop_date then
        (case chunk_end hiprecision stop_date current of
           Inl e \<Rightarrow> Some (Inl e, w)
         | Inr lastDateOfDailyChunk \<Rightarrow>
            (case fetchData (getTimeframe current lastDateOfDailyChunk) w of
               None \<Rightarrow> None
             | Some (Inl e, w1) \<Rightarrow> Some (Inl e, w1)
             | Some (Inr df, w1) \<Rightarrow>
                (case next_day lastDateOfDailyChunk of
                   Inl e \<Rightarrow> Some (Inl e, w1)
                 | Inr current' \<Rightarrow>
                    (case pace 0 wait_time w1 of
                       (Some e, w2) \<Rightarrow> Some (Inl e, w2)
                     | (None, w2) \<Rightarrow>
                        raw_daily_loop hiprecision wait_time stop_date current'
                          (results @ [(current, df)]) w2))))
      else Some (Inr results, w))"

declare raw_daily_loop.simps [code]

text \<open>\<open>_getRawDailyData\<close> (lines 37 to 85).\<close>

definition getRawDailyData ::
  "int \<Rightarrow> int \<Rightarrow> bool \<Rightarrow> rat \<Rightarrow> date \<Rightarrow> world \<Rightarrow> ((exn + series) \<times> world) option" where
  "getRawDailyData start_year stop_year hiprecision wait_time today w =
     (case mk_date start_year 1 1 of
        Inl e \<Rightarrow> Some (Inl e, w)
      | Inr start_date \<Rightarrow>
         (case mk_date stop_year 12 31 of
            Inl e \<Rightarrow> Some (Inl e, w)
          | Inr stop_end \<Rightarrow>
             (let stop_date = min stop_end today; w0 = emit NewClient w in
              case raw_daily_loop hiprecision wait_time stop_date start_date [] w0 of
                None \<Rightarrow> None
              | Some (Inl e, w1) \<Rightarrow> Some (Inl e, w1)
              | Some (Inr results, w1) \<Rightarrow> Some (concat_daily results, w1))))"

text \<open>
  The loop of \<open>getDailyDataOnce\<close> (lines 148 to 156): one calendar month per chunk, the
  chunk end is not cut to \<open>stop_date\<close>, and the pause is drawn from 10 up.
\<close>

partial_function (option) once_loop ::
  "rat \<Rightarrow> date \<Rightarrow> date \<Rightarrow> (date \<times> frame) list \<Rightarrow> world
     \<Rightarrow> ((exn + (date \<times> frame) list) \<times> world) option" where
  "once_loop wait_time stop_date current results w =
     (if current < stop_date then
        (let lastDateOfMonth = month_end current in
         case fetchData (getTimeframe current lastDateOfMonth) w of
           None \<Rightarrow> None
         | Some (Inl e, w1) \<Rightarrow> Some (Inl e, w1)
         | Some (Inr df, w1) \<Rightarrow>
            (case next_day lastDateOfMonth of
               Inl e \<Rightarrow> Some (Inl e, w1)
             | Inr current' \<Rightarrow>
                (case pace 10 wait_time w1 of
                   (Some e, w2) \<Rightarrow> Some (Inl e, w2)
                 | (None, w2) \<Rightarrow>
                    once_loop wait_time stop_date current' (results @ [(current, df)]) w2)))
      else Some (Inr results, w))"

declare once_loop.simps [code]

text \<open>
  \<open>getDailyDataOnce\<close> (lines 88 to 170). The monthly frame is fetched first and cut to the
  requested range; a monthly frame without columns makes line 166 a \<^verbatim>\<open>KeyError\<close>.
\<close>

definition getDailyDataOnce ::
  "int \<Rightarrow> int \<Rightarrow> rat \<Rightarrow> date \<Rightarrow> world \<Rightarrow> ((exn + scaled_row list) \<times> world) option" where
  "getDailyDataOnce start_year stop_year wait_time today w =
     (case mk_date start_year 1 1 of
        Inl e \<Rightarrow> Some (Inl e, w)
      | Inr start_date \<Rightarrow>
     (case mk_date stop_year 12 31 of
        Inl e \<Rightarrow> Some (Inl e, w)
      | Inr stop_end \<Rightarrow>
     (let stop_date = min stop_end today; w0 = emit NewClient w in
      case fetchData (getTimeframe (2004, 1, 1) stop_date) w0 of
        None \<Rightarrow> None
      | Some (Inl e, w1) \<Rightarrow> Some (Inl e, w1)
      | Some (Inr mf, w1) \<Rightarrow>
         (let monthly = slice_frame start_date stop_date mf in
          case once_loop wait_time stop_date start_date [] w1 of
            None \<Rightarrow> None
          | Some (Inl e, w2) \<Rightarrow> Some (Inl e, w2)
          | Some (Inr results, w2) \<Rightarrow>
             (case concat_daily results of
                Inl e \<Rightarrow> Some (Inl e, w2)
              | Inr daily \<Rightarrow>
                 (case monthly of
                    None \<Rightarrow> Some (Inl KeyError, w2)
                  | Some mrows \<Rightarrow>
                     Some (Inr (scale_by_monthly daily (map (\<lambda>(d, v, p). (d, v)) mrows)),
                           w2)))))))"

section \<open>The stored dataset\<close>

text \<open>
  The column of a pull is named \<^verbatim>\<open>word + date.today().strftime("_%m_%d_%Y")\<close>; the
  workbook of a keyword is \<^verbatim>\<open>{dbpath}/{cat}_{word}_{geo}.xlsx\<close>.
\<close>

definition digit :: "nat \<Rightarrow> char" where
  "digit n = ''0123456789'' ! (n mod 10)"

fun digits :: "nat \<Rightarrow> string" where
  "digits n = (if n < 10 then [digit n] else digits (n div 10) @ [digit n])"

declare digits.simps [simp del]

definition two_digits :: "nat \<Rightarrow> string" where
  "two_digits n = [digit (n div 10), digit n]"

definition str_int :: "int \<Rightarrow> string" where
  "str_int i = (if i < 0 then ''-'' @ digits (nat (- i)) else digits (nat i))"

definition today_label :: "string \<Rightarrow> date \<Rightarrow> string" where
  "today_label word today = (case today of (y, m, d) \<Rightarrow>
     word @ ''_'' @ two_digits m @ ''_'' @ two_digits d @ ''_'' @ digits (nat y))"

definition dbfile :: "string \<Rightarrow> int \<Rightarrow> string \<Rightarrow> string \<Rightarrow> string" where
  "dbfile dbpath cat word geo =
     dbpath @ ''/'' @ str_int cat @ ''_'' @ word @ ''_'' @ geo @ ''.xlsx''"

definition isfile :: "world \<Rightarrow> string \<Rightarrow> bool" where
  "isfile w path = (files w path \<noteq> None)"

text \<open>
  \<^verbatim>\<open>pd.read_excel(path, sheet_name=...).set_index('date')\<close>: the stored table comes back
  as it was written; a workbook without the sheet is a \<^verbatim>\<open>ValueError\<close>.
\<close>

definition read_excel :: "world \<Rightarrow> string \<Rightarrow> string \<Rightarrow> exn + table" where
  "read_excel w path sheet_name =
     (case files w path of
        None \<Rightarrow> Inl FileNotFoundError
      | Some wb \<Rightarrow> (case map_of wb sheet_name of None \<Rightarrow> Inl ValueError | Some t \<Rightarrow> Inr t))"

definition empty_table :: table where
  "empty_table = ([], [])"

definition table_of_series :: "string \<Rightarrow> series \<Rightarrow> table" where
  "table_of_series name s = ([name], map (\<lambda>(d, v). (d, [v])) s)"

definition row_at :: "table \<Rightarrow> date \<Rightarrow> fval list" where
  "row_at t d = (case map_of (snd t) d of None \<Rightarrow> replicate (length (fst t)) NaN | Some vs \<Rightarrow> vs)"

definition union_index :: "date list \<Rightarrow> date list \<Rightarrow> date list" where
  "union_index xs ys = sort (remdups (xs @ ys))"

text \<open>
  \<^verbatim>\<open>left.join(right, how='outer')\<close> of two tables with unique dates: the columns of both
  over the sorted union of the dates, \<open>NaN\<close> where a table has no row; a column name that
  is in both tables is a \<^verbatim>\<open>ValueError\<close>.
\<close>

definition join_outer :: "table \<Rightarrow> table \<Rightarrow> exn + table" where
  "join_outer l r =
     (if list_ex (\<lambda>c. c \<in> set (fst r)) (fst l) then Inl ValueError
      else Inr (fst l @ fst r,
                map (\<lambda>d. (d, row_at l d @ row_at r d))
                    (union_index (map fst (snd l)) (map fst (snd r)))))"

definition write_excel :: "string \<Rightarrow> workbook \<Rightarrow> world \<Rightarrow> world" where
  "write_excel path wb w = emit (WriteFile path) (w\<lparr>files := (files w)(path \<mapsto> wb)\<rparr>)"

text \<open>\<^verbatim>\<open>df.T.median()\<close>: the median of every row across the columns.\<close>

definition tmedian :: "table \<Rightarrow> series" where
  "tmedian t = map (\<lambda>(d, vs). (d, fmedian vs)) (snd t)"

definition slice_table :: "date \<Rightarrow> date \<Rightarrow> table \<Rightarrow> table" where
  "slice_table start stop t = (fst t, slice_rows start stop (snd t))"

text \<open>Lines 180 to 185: the stored tables, or two empty ones when there is no workbook.\<close>

definition load_tables :: "world \<Rightarrow> string \<Rightarrow> exn + (table \<times> table)" where
  "load_tables w path =
     (if isfile w path then
        (case read_excel w path ''monthly'' of
           Inl e \<Rightarrow> Inl e
         | Inr data_m \<Rightarrow>
            (case read_excel w path ''daily'' of
               Inl e \<Rightarrow> Inl e
             | Inr data_d \<Rightarrow> Inr (data_m, data_d)))
      else Inr (empty_table, empty_table))"

text \<open>Lines 200 to 202 and 354 to 356: the monthly pull, as a one-column table.\<close>

definition fetch_monthly_column ::
  "string \<Rightarrow> date \<Rightarrow> world \<Rightarrow> ((exn + table) \<times> world) option" where
  "fetch_monthly_column word today w =
     (case fetchData (getTimeframe (2004, 1, 1) today) w of
        None \<Rightarrow> None
      | Some (Inl e, w1) \<Rightarrow> Some (Inl e, w1)
      | Some (Inr mf, w1) \<Rightarrow>
         (case drop_isPartial mf of
            Inl e \<Rightarrow> Some (Inl e, w1)
          | Inr monthly \<Rightarrow> Some (Inr (table_of_series (today_label word today) monthly), w1)))"

text \<open>
  \<open>buildDatabase\<close> (lines 173 to 215). The result is the exception raised, if any, and the
  world after the call. The workbook is written when the \<^verbatim>\<open>with\<close> block is left, also when
  the join of line 208 raises; it then holds the monthly sheet alone.
\<close>

definition buildDatabase ::
  "string \<Rightarrow> string \<Rightarrow> string \<Rightarrow> int \<Rightarrow> bool \<Rightarrow> date \<Rightarrow> world \<Rightarrow> (exn option \<times> world) option" where
  "buildDatabase dbpath word geo cat hiprecision today w =
     (let path = dbfile dbpath cat word geo in
      case load_tables w path of
        Inl e \<Rightarrow> Some (Some e, w)
      | Inr (data_m, data_d) \<Rightarrow>
         (if today_label word today \<in> set (fst data_m) then Some (None, w)
          else
            (case fetch_monthly_column word today (emit NewClient w) of
               None \<Rightarrow> None
             | Some (Inl e, w1) \<Rightarrow> Some (Some e, w1)
             | Some (Inr monthly, w1) \<Rightarrow>
                (case getRawDailyData 2004 (fst today) hiprecision 1 today w1 of
                   None \<Rightarrow> None
                 | Some (Inl e, w2) \<Rightarrow> Some (Some e, w2)
                 | Some (Inr raw, w2) \<Rightarrow>
                    (let daily = table_of_series (today_label word today) raw in
                     case join_outer data_m monthly of
                       Inl e \<Rightarrow> Some (Some e, w2)
                     | Inr data_m' \<Rightarrow>
                        (case join_outer data_d daily of
                           Inl e \<Rightarrow> Some (Some e, write_excel path [(''monthly'', data_m')] w2)
                         | Inr data_d' \<Rightarrow>
                            Some (None, write_excel path
                                    [(''monthly'', data_m'), (''daily'', data_d')] w2)))))))"

text \<open>\<open>buildMonthlyDatabase\<close> (lines 328 to 366).\<close>

definition buildMonthlyDatabase ::
  "string \<Rightarrow> string \<Rightarrow> string \<Rightarrow> int \<Rightarrow> date \<Rightarrow> world \<Rightarrow> (exn option \<times> world) option" where
  "buildMonthlyDatabase dbpath word geo cat today w =
     (let path = dbfile dbpath cat word geo in
      case (if isfile w path then read_excel w path ''monthly'' else Inr empty_table) of
        Inl e \<Rightarrow> Some (Some e, w)
      | Inr data_m \<Rightarrow>
         (if today_label word today \<in> set (fst data_m) then Some (None, w)
          else
            (case fetch_monthly_column word today (emit NewClient w) of
               None \<Rightarrow> None
             | Some (Inl e, w1) \<Rightarrow> Some (Some e, w1)
             | Some (Inr monthly, w1) \<Rightarrow>
                (case join_outer data_m monthly of
                   Inl e \<Rightarrow> Some (Some e, w1)
                 | Inr data_m' \<Rightarrow> Some (None, write_excel path [(''monthly'', data_m')] w1)))))"

section \<open>Reading the dataset\<close>

record db_row =
  d_date :: date
  d_daily :: fval
  d_monthly :: fval

definition nth_or_nan :: "fval list \<Rightarrow> nat \<Rightarrow> fval" where
  "nth_or_nan vs j = (if j < length vs then vs ! j else NaN)"

text \<open>Line 269: the monthly means of every column of the daily table.\<close>

definition resample_M_mean_table :: "table \<Rightarrow> table" where
  "resample_M_mean_table t =
     (if snd t = [] then (fst t, [])
      else let is = map (\<lambda>r. month_idx (fst r)) (snd t)
           in (fst t,
               map (\<lambda>i. (idx_month_start i,
                          map (\<lambda>j. fmean (map (\<lambda>r. nth_or_nan (snd r) j)
                                               (filter (\<lambda>r. month_idx (fst r) = i) (snd t))))
                              [0 ..< length (fst t)]))
                   [fold min is (hd is) .. fold max is (hd is)]))"

text \<open>Line 271: every column divided by a series, aligned on the union of the dates.\<close>

definition div_by_series :: "table \<Rightarrow> series \<Rightarrow> table" where
  "div_by_series t s =
     (fst t, map (\<lambda>d. (d, map (\<lambda>a. fdiv a (reindex s d)) (row_at t d)))
                 (union_index (map fst (snd t)) (map fst s)))"

text \<open>\<^verbatim>\<open>.ffill()\<close> of a table: every column is filled downwards.\<close>

fun ffill_rows :: "fval list \<Rightarrow> fval list list \<Rightarrow> fval list list" where
  "ffill_rows prev [] = []"
| "ffill_rows prev (r # rs) =
     (let r' = map2 (\<lambda>p x. if x = NaN then p else x) prev r in r' # ffill_rows r' rs)"

text \<open>Lines 280 to 282: the daily medians joined with the monthly medians, which are filled.\<close>

definition baseline_join :: "series \<Rightarrow> series \<Rightarrow> db_row list" where
  "baseline_join daily_scaled_med monthly_med =
     (let complete = join_left daily_scaled_med monthly_med;
          mon = ffill (map (\<lambda>(d, v, m). orNaN m) complete)
      in map (\<lambda>((d, v, m), mo). \<lparr>d_date = d, d_daily = v, d_monthly = mo\<rparr>) (zip complete mon))"

text \<open>
  \<open>getDailyDataFromDB\<close> (lines 218 to 288). The result is \<open>None\<close> when there is no workbook
  (the bare \<^verbatim>\<open>return\<close> of line 247).
\<close>

definition getDailyDataFromDB ::
  "string \<Rightarrow> string \<Rightarrow> string \<Rightarrow> int \<Rightarrow> int \<Rightarrow> int \<Rightarrow> bool \<Rightarrow> date \<Rightarrow> world
     \<Rightarrow> exn + db_row list option" where
  "getDailyDataFromDB dbpath word geo cat start_year stop_year uniformdata today w =
     (case mk_date start_year 1 1 of Inl e \<Rightarrow> Inl e | Inr start_date \<Rightarrow>
     (case mk_date stop_year 12 31 of Inl e \<Rightarrow> Inl e | Inr stop_end \<Rightarrow>
      (let stop_date = min stop_end today; path = dbfile dbpath cat word geo in
       if isfile w path then
         (case read_excel w path ''monthly'' of Inl e \<Rightarrow> Inl e | Inr tm \<Rightarrow>
         (case read_excel w path ''daily'' of Inl e \<Rightarrow> Inl e | Inr td \<Rightarrow>
           (let data_m = slice_table start_date stop_date tm;
                data_d = slice_table start_date stop_date td;
                monthly_med = tmedian data_m
            in if uniformdata then
                 (let daily_med = tmedian (slice_table start_date stop_date data_d)
                  in Inr (Some (map (\<lambda>r. \<lparr>d_date = r_date r, d_daily = r_scaled r,
                                             d_monthly = r_monthly r\<rparr>)
                                    (scale_by_monthly daily_med monthly_med))))
               else
                 (let dailyaverage = resample_M_mean_table data_d;
                      scale_m = div_by_series dailyaverage monthly_med;
                      scale_d = ffill_rows (replicate (length (fst data_d)) NaN)
                                  (map (\<lambda>r. row_at scale_m (fst r)) (snd data_d));
                      data_d_scaled = (fst data_d,
                                       map (\<lambda>(r, sc). (fst r, map2 fdiv (snd r) sc))
                                           (zip (snd data_d) scale_d));
                      daily_scaled_med = tmedian data_d_scaled
                  in Inr (Some (baseline_join daily_scaled_med monthly_med))))))
       else Inr None)))"

text \<open>\<open>getMonthlyDataFromDB\<close> (lines 291 to 326).\<close>

definition getMonthlyDataFromDB ::
  "string \<Rightarrow> string \<Rightarrow> string \<Rightarrow> int \<Rightarrow> int \<Rightarrow> int \<Rightarrow> bool \<Rightarrow> date \<Rightarrow> world
     \<Rightarrow> exn + series option" where
  "getMonthlyDataFromDB dbpath word geo cat start_year stop_year uniformdata today w =
     (case mk_date start_year 1 1 of Inl e \<Rightarrow> Inl e | Inr start_date \<Rightarrow>
     (case mk_date stop_year 12 31 of Inl e \<Rightarrow> Inl e | Inr stop_end \<Rightarrow>
      (let stop_date = min stop_end today; path = dbfile dbpath cat word geo in
       if isfile w path then
         (case read_excel w path ''monthly'' of Inl e \<Rightarrow> Inl e | Inr tm \<Rightarrow>
           Inr (Some (tmedian (slice_table start_date stop_date tm))))
       else Inr None)))"

text \<open>The column permutation of a table: column \<open>i\<close> of the result is column \<open>p ! i\<close>.\<close>

definition permute_cols :: "nat list \<Rightarrow> table \<Rightarrow> table" where
  "permute_cols p t =
     (map (\<lambda>i. fst t ! i) p, map (\<lambda>(d, vs). (d, map (\<lambda>i. vs ! i) p)) (snd t))"

text \<open>A world that has made no call yet.\<close>

definition new_world ::
  "(nat \<Rightarrow> exn option) \<Rightarrow> (nat \<Rightarrow> exn + frame) \<Rightarrow> (nat \<Rightarrow> nat) \<Rightarrow> (string \<Rightarrow> workbook option) \<Rightarrow> world" where
  "new_world po io ro fs = \<lparr>payload_out = po, iot_out = io, rand_out = ro, n_payload = 0,
     n_iot = 0, n_rand = 0, trace = [], files = fs\<rparr>"

section \<open>Example inputs\<close>

text \<open>A quiet service: every call succeeds, and the service has no data.\<close>

definition quiet_world :: "(string \<Rightarrow> workbook option) \<Rightarrow> world" where
  "quiet_world fs = new_world (\<lambda>n. None) (\<lambda>n. Inr None) (\<lambda>n. 0) fs"

text \<open>A stored dataset of the keyword \<^verbatim>\<open>flu\<close> with two pulls.\<close>

definition flu_monthly :: table where
  "flu_monthly = ([''flu_01_05_2021'', ''flu_01_06_2021''],
     [((2020, 1, 1), [Fin 10, Fin 20]), ((2020, 2, 1), [Fin 30, Fin 50]),
      ((2021, 1, 1), [Fin 1, Fin 3])])"

definition flu_daily :: table where
  "flu_daily = ([''flu_01_05_2021'', ''flu_01_06_2021''],
     [((2020, 1, 1), [Fin 1, Fin 2]), ((2020, 1, 2), [Fin 3, Fin 5]),
      ((2020, 2, 1), [Fin 0, Fin 0]), ((2020, 2, 2), [Fin 4, NaN])])"

definition flu_files :: "string \<Rightarrow> workbook option" where
  "flu_files = (\<lambda>p. if p = ''db/0_flu_US.xlsx''
                    then Some [(''monthly'', flu_monthly), (''daily'', flu_daily)] else None)"

text \<open>
  The scenario of the spec: the monthly baseline is 10 in January and 20 in February 2020,
  and every day of both months has the daily value 5. The service answers the monthly
  request first, then the January chunk, then the February chunk.
\<close>

definition ex_monthly_frame :: frame where
  "ex_monthly_frame = Some [((2020, 1, 1), Fin 10, False), ((2020, 2, 1), Fin 20, False)]"

definition ex_jan :: frame where
  "ex_jan = Some (map (\<lambda>d. ((2020, 1, d), Fin 5, False)) [1..<32])"

definition ex_feb :: frame where
  "ex_feb = Some (map (\<lambda>d. ((2020, 2, d), Fin 5, False)) [1..<30])"

definition ex_world :: world where
  "ex_world = new_world (\<lambda>n. None)
     (\<lambda>n. if n = 0 then Inr ex_monthly_frame else if n = 1 then Inr ex_jan else Inr ex_feb)
     (\<lambda>n. 0) (\<lambda>p. None)"

text \<open>
  The same scenario as series: the concatenated daily chunks and the monthly baseline. In
  \<open>zero_daily\<close> the daily values of February are all 0.
\<close>

definition ex_daily :: series where
  "ex_daily = map (\<lambda>d. ((2020, 1, d), Fin 5)) [1..<32] @ map (\<lambda>d. ((2020, 2, d), Fin 5)) [1..<30]"

definition ex_monthly :: series where
  "ex_monthly = [((2020, 1, 1), Fin 10), ((2020, 2, 1), Fin 20)]"

definition zero_daily :: series where
  "zero_daily = [((2020, 1, 1), Fin 5), ((2020, 1, 2), Fin 5), ((2020, 2, 1), Fin 0), ((2020, 2, 2), Fin 0)]"

section \<open>Predicates and columns used in the statements\<close>

text \<open>
  What the loop leaves in the trace after \<open>k\<close> rounds that raised \<^verbatim>\<open>ResponseError\<close>, when
  it was entered with the attempt counter at \<open>a\<close>: every round is a request for the same
  time frame followed by a sleep, and the sleeps grow by five seconds.
\<close>

definition backoff_trace :: "timeframe \<Rightarrow> nat \<Rightarrow> nat \<Rightarrow> event list" where
  "backoff_trace tf a k =
     concat (map (\<lambda>i. [BuildPayload tf, Sleep (60 + 5 * of_nat (a + i))]) [0..<k])"

text \<open>
  The stored monthly table of a workbook already has the column of today's pull; the
  workbook has a given sheet.
\<close>

definition has_today_column :: "world \<Rightarrow> string \<Rightarrow> string \<Rightarrow> date \<Rightarrow> bool" where
  "has_today_column w path word today =
     (case files w path of
        None \<Rightarrow> False
      | Some wb \<Rightarrow> (case map_of wb ''monthly'' of
                     None \<Rightarrow> False
                   | Some tm \<Rightarrow> today_label word today \<in> set (fst tm)))"

definition has_sheet :: "world \<Rightarrow> string \<Rightarrow> string \<Rightarrow> bool" where
  "has_sheet w path sheet_name =
     (case files w path of None \<Rightarrow> False | Some wb \<Rightarrow> map_of wb sheet_name \<noteq> None)"

text \<open>
  What every list of chunks that the loop returns looks like: the first chunk starts at
  \<open>cur\<close>, every chunk ends at a valid date between its start and \<open>stop_date\<close>, the next
  chunk starts on the day after, and the list ends as soon as the next start is not before
  \<open>stop_date\<close>.
\<close>

fun chunk_chain :: "date \<Rightarrow> date \<Rightarrow> (date \<times> date) list \<Rightarrow> bool" where
  "chunk_chain stop cur [] = (\<not> cur < stop)"
| "chunk_chain stop cur (c # cs) =
     (fst c = cur \<and> cur < stop \<and> cur \<le> snd c \<and> snd c \<le> stop \<and> valid_date (snd c) \<and>
      (case next_day (snd c) of Inl e \<Rightarrow> False | Inr cur' \<Rightarrow> chunk_chain stop cur' cs))"

text \<open>The chunk-end rule of the spec, as a predicate on the list of chunks that starts at \<open>cur\<close>.\<close>

fun rule_chain :: "date \<Rightarrow> date \<Rightarrow> (date \<times> date) list \<Rightarrow> bool" where
  "rule_chain stop cur [] = True"
| "rule_chain stop cur (c # cs) =
     (fst c = cur \<and> snd c = min stop (last_day_of_month_after 7 cur) \<and>
      (case next_day (snd c) of Inl e \<Rightarrow> cs = [] | Inr cur' \<Rightarrow> rule_chain stop cur' cs))"

text \<open>The first day of January, May or September.\<close>

definition month_start_159 :: "date \<Rightarrow> bool" where
  "month_start_159 d = (case d of (y, m, dd) \<Rightarrow> dd = 1 \<and> (m = 1 \<or> m = 5 \<or> m = 9))"

text \<open>The helper column \<^verbatim>\<open>_avg\<close> of lines 159 to 162: the monthly means, filled.\<close>

definition avg_column :: "series \<Rightarrow> fval list" where
  "avg_column daily = ffill (map (\<lambda>r. reindex (resample_M_mean daily) (fst r)) daily)"


text \<open>
  A stored dataset with one pull whose daily values of February are all 0; \<open>feb\<close> is the
  monthly value of February.
\<close>

definition zero_files :: "fval \<Rightarrow> string \<Rightarrow> workbook option" where
  "zero_files feb = (\<lambda>p. if p = ''db/0_flu_US.xlsx''
     then Some [(''monthly'', ([''flu_01_05_2021''],
                    [((2020, 1, 1), [Fin 10]), ((2020, 2, 1), [feb])])),
                (''daily'', ([''flu_01_05_2021''], map (\<lambda>(d, v). (d, [v])) zero_daily))]
     else None)"

section \<open>The retry loop\<close>

lemma backoff_trace_Suc:
  "backoff_trace tf a (Suc k) =
     [BuildPayload tf, Sleep (60 + 5 * of_nat a)] @ backoff_trace tf (Suc a) k"
proof -
  have "[0..<Suc k] = 0 # map Suc [0..<k]"
    by (simp add: upt_conv_Cons map_Suc_upt del: upt_Suc)
  then show ?thesis
    by (simp add: backoff_trace_def comp_def del: upt_Suc)
qed

text \<open>
  If the first \<open>k\<close> calls of \<^verbatim>\<open>build_payload\<close> raise \<^verbatim>\<open>ResponseError\<close> and the next one
  does anything else (it succeeds, or raises another exception), the loop returns that
  outcome after exactly \<open>k\<close> sleeps of 60, 65, 70, ... seconds; nothing else of the
  world changes.
\<close>

lemma fetch_retry_backoff:
  assumes "\<forall>i<k. payload_out w (n_payload w + i) = Some ResponseError"
    and "payload_out w (n_payload w + k) = r" and "r \<noteq> Some ResponseError"
  shows "fetch_retry tf a w =
           Some (r, w\<lparr>n_payload := n_payload w + k + 1,
                      trace := trace w @ backoff_trace tf a k @ [BuildPayload tf]\<rparr>)"
  using assms
proof (induction k arbitrary: a w)
  case 0
  then show ?case
    by (cases r; cases "the r")
       (auto simp: fetch_retry.simps[of tf a w] build_payload_def emit_def backoff_trace_def)
next
  case (Suc k)
  let ?w1 = "emit (Sleep (60 + 5 * of_nat a))
               (emit (BuildPayload tf) (w\<lparr>n_payload := n_payload w + 1\<rparr>))"
  have first: "payload_out w (n_payload w) = Some ResponseError"
    using Suc.prems(1) by (metis add.right_neutral zero_less_Suc)
  have step: "fetch_retry tf a w = fetch_retry tf (a + 1) ?w1"
    by (simp add: fetch_retry.simps[of tf a w] build_payload_def first)
  have h1: "\<forall>i<k. payload_out ?w1 (n_payload ?w1 + i) = Some ResponseError"
    using Suc.prems(1) by (auto simp: emit_def)
  have h2: "payload_out ?w1 (n_payload ?w1 + k) = r"
    using Suc.prems(2) by (simp add: emit_def)
  show ?case
    unfolding step Suc.IH[OF h1 h2 Suc.prems(3), of "a + 1"]
    by (simp add: emit_def backoff_trace_Suc)
qed

text \<open>The loop returns only if some call of \<^verbatim>\<open>build_payload\<close> does not raise \<^verbatim>\<open>ResponseError\<close>.\<close>

lemma fetch_retry_returns_only_if:
  assumes "fetch_retry tf a w = Some y"
  shows "\<exists>i. payload_out w (n_payload w + i) \<noteq> Some ResponseError"
proof (rule fetch_retry.raw_induct
    [where P = "\<lambda>tf a w y. \<exists>i. payload_out w (n_payload w + i) \<noteq> Some ResponseError",
     OF _ assms], goal_cases)
  case (1 fr tf a w y)
  show ?case
  proof (cases "payload_out w (n_payload w) = Some ResponseError")
    case True
    let ?w1 = "emit (Sleep (60 + 5 * of_nat a))
                 (emit (BuildPayload tf) (w\<lparr>n_payload := n_payload w + 1\<rparr>))"
    from 1(2) True have "fr tf (a + 1) ?w1 = Some y"
      by (simp add: build_payload_def)
    from 1(1)[OF this] obtain i
      where "payload_out ?w1 (n_payload ?w1 + i) \<noteq> Some ResponseError"
      by blast
    then have "payload_out w (n_payload w + Suc i) \<noteq> Some ResponseError"
      by (simp add: emit_def)
    then show ?thesis by blast
  next
    case False
    then have "payload_out w (n_payload w + 0) \<noteq> Some ResponseError" by simp
    then show ?thesis by blast
  qed
qed

text \<open>Under a service that always raises \<^verbatim>\<open>ResponseError\<close> the call never returns.\<close>

lemma fetch_retry_diverges:
  assumes "\<forall>i. payload_out w (n_payload w + i) = Some ResponseError"
  shows "fetch_retry tf a w = None"
proof (cases "fetch_retry tf a w")
  case None
  then show ?thesis .
next
  case (Some y)
  from fetch_retry_returns_only_if[OF this] assms show ?thesis by blast
qed

text \<open>
  Claim C5 (retry policy of the fetcher). A \<^verbatim>\<open>ResponseError\<close> raised by
  \<^verbatim>\<open>build_payload\<close> is retried with the backoff above and never reaches the caller
  (\<open>fetch_retry_backoff\<close>, \<open>fetch_retry_diverges\<close>), and another exception leaves at once.
  But the claim speaks of a rate-limit error raised anywhere during the fetch, and the call
  that brings the data, \<^verbatim>\<open>interest_over_time()\<close> on line 35, is outside the \<^verbatim>\<open>try\<close>:
  when the payload is accepted and the data request is answered with \<^verbatim>\<open>ResponseError\<close>,
  \<open>_fetchData\<close> hands the error to its caller, without a sleep and without a second
  attempt.
\<close>

theorem fetchData_surfaces_ResponseError:
  "map_option (\<lambda>(r, w). (r, trace w))
     (fetchData ((2020, 1, 1), (2020, 1, 31))
        (new_world (\<lambda>n. None) (\<lambda>n. Inl ResponseError) (\<lambda>n. 0) (\<lambda>p. None)))
   = Some (Inl ResponseError, [BuildPayload ((2020, 1, 1), (2020, 1, 31)), InterestOverTime])"
  by (simp add: fetchData_def fetch_retry.simps build_payload_def interest_over_time_def
      emit_def new_world_def)

section \<open>Reading the monthly table\<close>

lemma dbfile_flu: "dbfile ''db'' 0 ''flu'' ''US'' = ''db/0_flu_US.xlsx''"
  by (simp add: dbfile_def str_int_def digits.simps digit_def)

text \<open>
  Claim C9. \<open>getMonthlyDataFromDB\<close> does not look at its flag \<open>uniformdata\<close>: whatever the
  other arguments and the stored workbooks, both values of the flag give the same result.
\<close>

theorem getMonthlyDataFromDB_ignores_uniformdata:
  "getMonthlyDataFromDB dbpath word geo cat start_year stop_year u today w
   = getMonthlyDataFromDB dbpath word geo cat start_year stop_year u' today w"
  by (simp add: getMonthlyDataFromDB_def)

text \<open>The result is the median across the stored monthly columns, cut to the range.\<close>

lemma getMonthlyDataFromDB_median:
  assumes "mk_date start_year 1 1 = Inr start_date" and "mk_date stop_year 12 31 = Inr stop_end"
    and "files w (dbfile dbpath cat word geo) = Some wb" and "map_of wb ''monthly'' = Some tm"
  shows "getMonthlyDataFromDB dbpath word geo cat start_year stop_year u today w
         = Inr (Some (tmedian (slice_table start_date (min stop_end today) tm)))"
  using assms by (simp add: getMonthlyDataFromDB_def isfile_def read_excel_def)

theorem getMonthlyDataFromDB_ignores_uniformdata_witness:
  "getMonthlyDataFromDB ''db'' ''flu'' ''US'' 0 2020 2020 True (2021, 1, 7) (quiet_world flu_files)
     = Inr (Some [((2020, 1, 1), Fin 15), ((2020, 2, 1), Fin 40)])
   \<and> getMonthlyDataFromDB ''db'' ''flu'' ''US'' 0 2020 2020 False (2021, 1, 7) (quiet_world flu_files)
     = Inr (Some [((2020, 1, 1), Fin 15), ((2020, 2, 1), Fin 40)])"
proof -
  have "getMonthlyDataFromDB ''db'' ''flu'' ''US'' 0 2020 2020 False (2021, 1, 7)
          (quiet_world flu_files)
        = Inr (Some [((2020, 1, 1), Fin 15), ((2020, 2, 1), Fin 40)])"
    by code_simp
  then show ?thesis
    using getMonthlyDataFromDB_ignores_uniformdata
      [of "''db''" "''flu''" "''US''" 0 2020 2020 True "(2021, 1, 7)" "quiet_world flu_files" False]
    by simp
qed

section \<open>The pause after a fetch\<close>

lemma fetchData_first_ok:
  assumes "payload_out w (n_payload w) = None"
  shows "fetchData tf w =
           Some (iot_out w (n_iot w),
                 w\<lparr>n_payload := n_payload w + 1, n_iot := n_iot w + 1,
                   trace := trace w @ [BuildPayload tf, InterestOverTime]\<rparr>)"
proof -
  have "fetch_retry tf 0 w =
          Some (None, w\<lparr>n_payload := n_payload w + 0 + 1,
                          trace := trace w @ backoff_trace tf 0 0 @ [BuildPayload tf]\<rparr>)"
    by (rule fetch_retry_backoff) (use assms in auto)
  then show ?thesis
    by (simp add: fetchData_def interest_over_time_def emit_def backoff_trace_def)
qed

text \<open>With \<open>wait_time \<le> 1\<close> the range \<^verbatim>\<open>randrange(10, 10*wait_time)\<close> is empty.\<close>

lemma pace_empty_range:
  assumes "wait_time \<le> 1"
  shows "pace 10 wait_time w = (Some ValueError, w)"
proof -
  have "\<lfloor>10 * wait_time\<rfloor> \<le> 10"
    using assms by (simp add: floor_le_iff)
  then show ?thesis
    by (simp add: pace_def randrange_def Let_def)
qed

text \<open>Above 1, and with \<open>10 * wait_time\<close> a whole number, the pause is drawn and slept.\<close>

lemma pace_nonempty_range:
  assumes "1 < wait_time" and "of_int \<lfloor>10 * wait_time\<rfloor> = 10 * wait_time"
  shows "fst (pace 10 wait_time w) = None"
proof -
  have "10 < 10 * wait_time" using assms(1) by simp
  then have "10 < \<lfloor>10 * wait_time\<rfloor>"
    using assms(2) by (metis of_int_less_iff of_int_numeral)
  then show ?thesis
    using assms(2) by (simp add: pace_def randrange_def Let_def)
qed

text \<open>
  Claim C10. A call of \<open>getDailyDataOnce\<close> with \<open>wait_time \<le> 1\<close> whose range needs at
  least one daily chunk (\<open>start_date < stop_date\<close>) fails in the pause after the first
  chunk, although the monthly fetch and the chunk fetch both succeed: the result is the
  \<^verbatim>\<open>ValueError\<close> of the empty range, the trace ends with the chunk's fetch, and nothing
  was slept. So the pause can only succeed when \<open>wait_time > 1\<close>.
\<close>

theorem getDailyDataOnce_pacing_fails:
  assumes "wait_time \<le> 1"
    and "1 \<le> start_year" and "start_year \<le> 9999" and "1 \<le> stop_year" and "stop_year \<le> 9999"
    and "(start_year, 1, 1) < min (stop_year, 12, 31) today"
    and "payload_out w (n_payload w) = None" and "iot_out w (n_iot w) = Inr mf"
    and "payload_out w (n_payload w + 1) = None" and "iot_out w (n_iot w + 1) = Inr df"
  shows "getDailyDataOnce start_year stop_year wait_time today w =
           Some (Inl ValueError,
                 w\<lparr>n_payload := n_payload w + 2, n_iot := n_iot w + 2,
                   trace := trace w @
                     [NewClient,
                      BuildPayload ((2004, 1, 1), min (stop_year, 12, 31) today), InterestOverTime,
                      BuildPayload ((start_year, 1, 1), (start_year, 1, 31)), InterestOverTime]\<rparr>)"
proof -
  define stop where "stop = min (stop_year, 12, 31) today"
  define start :: date where "start = (start_year, 1, 1)"
  define w0 where "w0 = emit NewClient w"
  define w1 where "w1 = w0\<lparr>n_payload := n_payload w0 + 1, n_iot := n_iot w0 + 1,
     trace := trace w0 @ [BuildPayload (getTimeframe (2004, 1, 1) stop), InterestOverTime]\<rparr>"
  define w2 where "w2 = w1\<lparr>n_payload := n_payload w1 + 1, n_iot := n_iot w1 + 1,
     trace := trace w1 @ [BuildPayload (getTimeframe start (month_end start)), InterestOverTime]\<rparr>"
  have d1: "mk_date start_year 1 1 = Inr start"
    using assms(2,3) by (simp add: mk_date_def valid_date_def days_in_month_def start_def)
  have d2: "mk_date stop_year 12 31 = Inr (stop_year, 12, 31)"
    using assms(4,5) by (simp add: mk_date_def valid_date_def days_in_month_def)
  have f1: "fetchData (getTimeframe (2004, 1, 1) stop) w0 = Some (Inr mf, w1)"
    using fetchData_first_ok[of w0 "getTimeframe (2004, 1, 1) stop"] assms(7,8)
    by (simp add: w0_def w1_def emit_def)
  have f2: "fetchData (getTimeframe start (month_end start)) w1 = Some (Inr df, w2)"
    using fetchData_first_ok[of w1 "getTimeframe start (month_end start)"] assms(9,10)
    by (simp add: w0_def w1_def w2_def emit_def)
  have nd: "next_day (month_end start) = Inr (start_year, 2, 1)"
    by (simp add: next_day_def month_end_def days_in_month_def start_def)
  have lt: "start < stop"
    using assms(6) by (simp add: start_def stop_def)
  have loop: "once_loop wait_time stop start [] w1 = Some (Inl ValueError, w2)"
    by (subst once_loop.simps) (simp add: Let_def f2 nd pace_empty_range[OF assms(1)] lt)
  have "getDailyDataOnce start_year stop_year wait_time today w = Some (Inl ValueError, w2)"
    unfolding getDailyDataOnce_def d1 d2
    by (simp only: Let_def sum.case option.case prod.case f1 loop flip: stop_def w0_def)
  moreover have "w2 = w\<lparr>n_payload := n_payload w + 2, n_iot := n_iot w + 2,
                   trace := trace w @
                     [NewClient,
                      BuildPayload ((2004, 1, 1), min (stop_year, 12, 31) today), InterestOverTime,
                      BuildPayload ((start_year, 1, 1), (start_year, 1, 31)), InterestOverTime]\<rparr>"
    by (simp add: w2_def w1_def w0_def emit_def getTimeframe_def month_end_def days_in_month_def
        start_def stop_def)
  ultimately show ?thesis by simp
qed

theorem getDailyDataOnce_pacing_fails_witness:
  "map_option (\<lambda>(r, w). (r, trace w))
     (getDailyDataOnce 2020 2020 1 (2021, 1, 7) (quiet_world (\<lambda>p. None)))
   = Some (Inl ValueError,
           [NewClient, BuildPayload ((2004, 1, 1), (2020, 12, 31)), InterestOverTime,
            BuildPayload ((2020, 1, 1), (2020, 1, 31)), InterestOverTime])"
  using getDailyDataOnce_pacing_fails
    [of 1 2020 2020 "(2021, 1, 7)" "quiet_world (\<lambda>p. None)" None None]
  by (simp add: quiet_world_def new_world_def)

section \<open>Building the dataset\<close>

text \<open>What a returning run of the retry loop did to the world.\<close>

lemma fetch_retry_result:
  assumes "fetch_retry tf a w = Some (r, w')"
  shows "\<exists>k. w' = w\<lparr>n_payload := n_payload w + k + 1,
                      trace := trace w @ backoff_trace tf a k @ [BuildPayload tf]\<rparr>"
proof -
  define Q where "Q = (\<lambda>i. payload_out w (n_payload w + i) \<noteq> Some ResponseError)"
  from fetch_retry_returns_only_if[OF assms] have ex: "\<exists>i. Q i"
    by (simp add: Q_def)
  define k where "k = (LEAST i. Q i)"
  have qk: "Q k" unfolding k_def using ex by (metis LeastI)
  have below: "\<forall>i<k. payload_out w (n_payload w + i) = Some ResponseError"
    unfolding k_def using not_less_Least[of _ Q] by (auto simp: Q_def)
  have "fetch_retry tf a w =
          Some (payload_out w (n_payload w + k),
                w\<lparr>n_payload := n_payload w + k + 1,
                  trace := trace w @ backoff_trace tf a k @ [BuildPayload tf]\<rparr>)"
    by (rule fetch_retry_backoff[OF below refl]) (use qk in \<open>simp add: Q_def\<close>)
  with assms show ?thesis by auto
qed

lemma fetchData_more_calls:
  assumes "fetchData tf w = Some (r, w')"
  shows "n_payload w < n_payload w' \<and> files w' = files w"
proof -
  from assms obtain r0 w1 where fr: "fetch_retry tf 0 w = Some (r0, w1)"
    by (auto simp: fetchData_def split: option.splits)
  from fetch_retry_result[OF fr] obtain k where
    w1: "w1 = w\<lparr>n_payload := n_payload w + k + 1,
                 trace := trace w @ backoff_trace tf 0 k @ [BuildPayload tf]\<rparr>" by blast
  from assms fr have "w' = w1 \<or> w' = snd (interest_over_time w1)"
    by (auto simp: fetchData_def split: option.splits)
  then show ?thesis
    by (auto simp: w1 interest_over_time_def emit_def)
qed

lemma pace_keeps:
  "pace lo wt w = (r, w') \<Longrightarrow> n_payload w' = n_payload w \<and> files w' = files w"
  by (auto simp: pace_def randrange_def Let_def emit_def split: if_splits prod.splits sum.splits)

lemma raw_daily_loop_keeps:
  assumes "raw_daily_loop hp wt stop cur res w = Some (r, w')"
  shows "n_payload w \<le> n_payload w' \<and> files w' = files w"
proof (rule raw_daily_loop.raw_induct
    [where P = "\<lambda>hp wt stop cur res w y. n_payload w \<le> n_payload (snd y) \<and> files (snd y) = files w",
     OF _ assms, simplified snd_conv], goal_cases)
  case (1 f hp wt stop cur res w y)
  show ?case
  proof (cases "cur < stop")
    case False
    with 1(2) show ?thesis by auto
  next
    case True
    show ?thesis
    proof (cases "chunk_end hp stop cur")
      case (Inl e)
      with 1(2) True show ?thesis by auto
    next
      case (Inr l)
      show ?thesis
      proof (cases "fetchData (getTimeframe cur l) w")
        case None
        with 1(2) True Inr show ?thesis by auto
      next
        case (Some p)
        obtain r1 w1 where p: "p = (r1, w1)" by (cases p)
        note fd = fetchData_more_calls[OF Some[unfolded p]]
        show ?thesis
        proof (cases r1)
          case (Inl e)
          with 1(2) True Inr Some p fd show ?thesis by auto
        next
          case df: (Inr df)
          show ?thesis
          proof (cases "next_day l")
            case (Inl e)
            with 1(2) True Inr Some p df fd show ?thesis by auto
          next
            case nd: (Inr c')
            obtain r2 w2 where pc: "pace 0 wt w1 = (r2, w2)" by (cases "pace 0 wt w1")
            note pk = pace_keeps[OF pc]
            show ?thesis
            proof (cases r2)
              case None
              with 1(2) True Inr Some p df nd pc
              have "f hp wt stop c' (res @ [(cur, df)]) w2 = Some y" by simp
              from 1(1)[OF this] pk fd show ?thesis by auto
            next
              case (Some e)
              with 1(2) True Inr \<open>fetchData (getTimeframe cur l) w = Some p\<close> p df nd pc pk fd
              show ?thesis by auto
            qed
          qed
        qed
      qed
    qed
  qed
qed


lemma getRawDailyData_keeps:
  assumes "getRawDailyData sy ey hp wt today w = Some (r, w')"
  shows "n_payload w \<le> n_payload w' \<and> files w' = files w"
proof (cases "mk_date sy 1 1")
  case (Inl e)
  with assms show ?thesis by (simp add: getRawDailyData_def)
next
  case s: (Inr start)
  show ?thesis
  proof (cases "mk_date ey 12 31")
    case (Inl e)
    with assms s show ?thesis by (simp add: getRawDailyData_def)
  next
    case e: (Inr stop_end)
    from assms s e obtain r0 where
      "raw_daily_loop hp wt (min stop_end today) start [] (emit NewClient w) = Some (r0, w')"
      by (auto simp: getRawDailyData_def Let_def split: option.splits sum.splits)
    from raw_daily_loop_keeps[OF this] show ?thesis by (simp add: emit_def)
  qed
qed

lemma fetch_monthly_column_result:
  assumes "fetch_monthly_column word today w = Some (Inr monthly, w1)"
  shows "fst monthly = [today_label word today] \<and> n_payload w < n_payload w1 \<and> files w1 = files w"
proof -
  from assms obtain tf mf where fd: "fetchData tf w = Some (Inr mf, w1)"
    and m: "\<exists>s. monthly = table_of_series (today_label word today) s"
    by (fastforce simp: fetch_monthly_column_def split: option.splits sum.splits)
  from fetchData_more_calls[OF fd] m show ?thesis
    by (auto simp: table_of_series_def)
qed

lemma join_outer_cols: "join_outer l r = Inr t \<Longrightarrow> fst t = fst l @ fst r"
  by (auto simp: join_outer_def split: if_splits)

lemma guard_hit_buildDatabase:
  assumes "has_today_column w (dbfile dbpath cat word geo) word today"
  shows "\<exists>r. buildDatabase dbpath word geo cat hp today w = Some (r, w)"
    and "has_sheet w (dbfile dbpath cat word geo) ''daily''
         \<Longrightarrow> buildDatabase dbpath word geo cat hp today w = Some (None, w)"
  using assms
  by (auto simp: buildDatabase_def has_today_column_def has_sheet_def load_tables_def isfile_def
      read_excel_def split: option.splits)

lemma guard_hit_buildMonthlyDatabase:
  assumes "has_today_column w (dbfile dbpath cat word geo) word today"
  shows "buildMonthlyDatabase dbpath word geo cat today w = Some (None, w)"
  using assms
  by (auto simp: buildMonthlyDatabase_def has_today_column_def isfile_def
      read_excel_def split: option.splits)

lemma buildDatabase_returns:
  assumes "buildDatabase dbpath word geo cat hp today w = Some (None, w1)"
  shows "has_today_column w1 (dbfile dbpath cat word geo) word today"
    and "has_sheet w1 (dbfile dbpath cat word geo) ''daily''"
    and "\<not> has_today_column w (dbfile dbpath cat word geo) word today \<Longrightarrow> n_payload w < n_payload w1"
proof -
  define path where "path = dbfile dbpath cat word geo"
  define label where "label = today_label word today"
  from assms obtain data_m data_d where lt: "load_tables w path = Inr (data_m, data_d)"
    by (auto simp: buildDatabase_def path_def Let_def split: sum.splits)
  have stored: "has_today_column w path word today \<longleftrightarrow> label \<in> set (fst data_m)"
    using lt by (auto simp: load_tables_def has_today_column_def isfile_def read_excel_def
        empty_table_def label_def split: option.splits if_splits sum.splits)
  have daily_sheet: "isfile w path \<Longrightarrow> has_sheet w path ''daily''"
    using lt by (auto simp: load_tables_def has_sheet_def isfile_def read_excel_def
        split: option.splits if_splits sum.splits)
  show "has_today_column w1 (dbfile dbpath cat word geo) word today"
    and "has_sheet w1 (dbfile dbpath cat word geo) ''daily''"
    and "\<not> has_today_column w (dbfile dbpath cat word geo) word today \<Longrightarrow> n_payload w < n_payload w1"
  proof (atomize (full), cases "label \<in> set (fst data_m)")
    case True
    then have "w1 = w"
      using assms lt by (simp add: buildDatabase_def label_def Let_def flip: path_def)
    moreover have "isfile w path"
      using True lt by (auto simp: load_tables_def empty_table_def split: if_splits)
    ultimately show "has_today_column w1 (dbfile dbpath cat word geo) word today \<and>
      has_sheet w1 (dbfile dbpath cat word geo) ''daily'' \<and>
      (\<not> has_today_column w (dbfile dbpath cat word geo) word today \<longrightarrow> n_payload w < n_payload w1)"
      using stored True daily_sheet by (simp add: path_def)
  next
    case False
    from assms lt False obtain monthly wa raw wb data_m' data_d' where
      fm: "fetch_monthly_column word today (emit NewClient w) = Some (Inr monthly, wa)"
      and rd: "getRawDailyData 2004 (fst today) hp 1 today wa = Some (Inr raw, wb)"
      and jm: "join_outer data_m monthly = Inr data_m'"
      and w1: "w1 = write_excel path [(''monthly'', data_m'), (''daily'', data_d')] wb"
      by (auto simp: buildDatabase_def Let_def label_def simp flip: path_def
          split: option.splits sum.splits)
    from fetch_monthly_column_result[OF fm] getRawDailyData_keeps[OF rd]
    have calls: "n_payload w < n_payload wb" and cols: "fst monthly = [label]"
      by (auto simp: emit_def label_def)
    from join_outer_cols[OF jm] cols have "label \<in> set (fst data_m')" by simp
    then show "has_today_column w1 (dbfile dbpath cat word geo) word today \<and>
      has_sheet w1 (dbfile dbpath cat word geo) ''daily'' \<and>
      (\<not> has_today_column w (dbfile dbpath cat word geo) word today \<longrightarrow> n_payload w < n_payload w1)"
      using calls
      by (simp add: w1 write_excel_def emit_def has_today_column_def has_sheet_def label_def
          flip: path_def)
  qed
qed

text \<open>
  Claim C6 (same-day idempotency). When the stored monthly table already has today's
  column, \<open>buildMonthlyDatabase\<close> returns with the world untouched: no client is built, no
  request is sent, no workbook is written. \<open>buildDatabase\<close> leaves the world untouched
  as well, and returns normally when the workbook has its daily sheet (it reads that sheet
  before the test of line 187, so a workbook without it is a \<^verbatim>\<open>ValueError\<close>). After a
  call of \<open>buildDatabase\<close> that returned normally, a second call on the same day is such
  a no-op, whatever the first one did; and if today's column was absent before the first
  call, that call did send requests. So two calls on one day make one acquisition.
\<close>

theorem same_day_build_is_noop:
  "(has_today_column w (dbfile dbpath cat word geo) word today \<longrightarrow>
      buildMonthlyDatabase dbpath word geo cat today w = Some (None, w)
      \<and> (\<exists>r. buildDatabase dbpath word geo cat hp today w = Some (r, w))
      \<and> (has_sheet w (dbfile dbpath cat word geo) ''daily'' \<longrightarrow>
           buildDatabase dbpath word geo cat hp today w = Some (None, w)))
   \<and> (buildDatabase dbpath word geo cat hp today w = Some (None, w1) \<longrightarrow>
        buildDatabase dbpath word geo cat hp today w1 = Some (None, w1)
        \<and> (\<not> has_today_column w (dbfile dbpath cat word geo) word today \<longrightarrow>
              n_payload w < n_payload w1))"
  using guard_hit_buildMonthlyDatabase[of w dbpath cat word geo today]
    guard_hit_buildDatabase[of w dbpath cat word geo today hp]
    buildDatabase_returns[of dbpath word geo cat hp today w w1]
    guard_hit_buildDatabase(2)[of w1 dbpath cat word geo today hp]
  by blast

theorem same_day_build_is_noop_witness:
  "buildMonthlyDatabase ''db'' ''flu'' ''US'' 0 (2021, 1, 6) (quiet_world flu_files)
     = Some (None, quiet_world flu_files)
   \<and> buildDatabase ''db'' ''flu'' ''US'' 0 False (2021, 1, 6) (quiet_world flu_files)
     = Some (None, quiet_world flu_files)"
proof -
  have 1: "has_today_column (quiet_world flu_files) (dbfile ''db'' 0 ''flu'' ''US'') ''flu'' (2021, 1, 6)"
    by (simp add: has_today_column_def dbfile_flu quiet_world_def new_world_def flu_files_def
        flu_monthly_def today_label_def two_digits_def digit_def digits.simps)
  have 2: "has_sheet (quiet_world flu_files) (dbfile ''db'' 0 ''flu'' ''US'') ''daily''"
    by (simp add: has_sheet_def dbfile_flu quiet_world_def new_world_def flu_files_def)
  show ?thesis
    using same_day_build_is_noop
      [of "quiet_world flu_files" "''db''" 0 "''flu''" "''US''" "(2021, 1, 6)" False
          "quiet_world flu_files"] 1 2
    by blast
qed

section \<open>The chunks\<close>

lemma next_day_greater: "next_day d = Inr d' \<Longrightarrow> d < d'"
  by (cases d) (auto simp: next_day_def split: if_splits)

lemma days_in_month_bounds: "28 \<le> days_in_month y m" "days_in_month y m \<le> 31"
  by (auto simp: days_in_month_def)

lemma next_day_valid:
  assumes "valid_date d" and "next_day d = Inr d'"
  shows "valid_date d'"
proof -
  obtain y m dd where d: "d = (y, m, dd)" by (cases d)
  have "28 \<le> days_in_month y (m + 1)" "28 \<le> days_in_month (y + 1) 1"
    by (rule days_in_month_bounds)+
  with assms show ?thesis
    by (auto simp: d next_day_def valid_date_def split: if_splits)
qed

lemma next_day_adjacent:
  assumes "valid_date b" and "next_day b = Inr c" and "valid_date d" and "b < d"
  shows "c \<le> d"
proof -
  obtain y m dd where b: "b = (y, m, dd)" by (cases b)
  obtain y2 m2 d2 where d: "d = (y2, m2, d2)" by (cases d)
  from assms(4) have lt: "y < y2 \<or> (y = y2 \<and> m < m2) \<or> (y = y2 \<and> m = m2 \<and> dd < d2)"
    by (auto simp: b d)
  from assms(1) have vb: "1 \<le> m" "m \<le> 12" "dd \<le> days_in_month y m"
    by (auto simp: b valid_date_def)
  from assms(3) have vd: "1 \<le> m2" "m2 \<le> 12" "1 \<le> d2" "d2 \<le> days_in_month y2 m2"
    by (auto simp: d valid_date_def)
  from lt show ?thesis
  proof (elim disjE conjE)
    assume "y < y2"
    with assms(2) vb vd show ?thesis
      by (auto simp: b d next_day_def split: if_splits)
  next
    assume "y = y2" "m < m2"
    with assms(2) vb vd show ?thesis
      by (auto simp: b d next_day_def split: if_splits)
  next
    assume "y = y2" "m = m2" "dd < d2"
    with assms(2) vb vd show ?thesis
      by (auto simp: b d next_day_def split: if_splits)
  qed
qed

lemma month_end_valid:
  assumes "valid_date d"
  shows "valid_date (month_end d)" and "d \<le> month_end d"
proof -
  obtain y m dd where d: "d = (y, m, dd)" by (cases d)
  have "28 \<le> days_in_month y m" by (rule days_in_month_bounds)
  with assms show "valid_date (month_end d)" and "d \<le> month_end d"
    by (auto simp: d month_end_def valid_date_def)
qed

lemma add_months7_valid:
  assumes "valid_date d" and "add_months 7 d = Inr l"
  shows "valid_date l" and "d < l" and "month_idx l = month_idx d + 7"
proof -
  obtain y m dd where d: "d = (y, m, dd)" by (cases d)
  define t where "t = m + 7 - 1"
  have b: "28 \<le> days_in_month (y + int (t div 12)) (t mod 12 + 1)"
    by (rule days_in_month_bounds)
  from assms have l: "l = (y + int (t div 12), t mod 12 + 1, min dd (days_in_month (y + int (t div 12)) (t mod 12 + 1)))"
    and y: "y + int (t div 12) \<le> 9999"
    by (auto simp: d add_months_def Let_def t_def split: if_splits)
  from assms(1) have m: "1 \<le> m" "m \<le> 12" and yy: "1 \<le> y" and dd: "1 \<le> dd"
    by (auto simp: d valid_date_def)
  show "valid_date l"
    using b y yy dd by (auto simp: l valid_date_def)
  have cases: "(t div 12 = 0 \<and> t mod 12 = m + 6) \<or> (t div 12 = 1 \<and> t mod 12 + 6 = m)"
  proof (cases "m \<le> 5")
    case True
    then show ?thesis by (simp add: t_def)
  next
    case False
    with m have "12 \<le> t" "t - 12 < 12" by (auto simp: t_def)
    then have "t div 12 = 1" "t mod 12 = t - 12"
      by (simp_all add: le_div_geq le_mod_geq)
    with False show ?thesis by (simp add: t_def)
  qed
  then show "d < l"
    by (auto simp: d l)
  from cases show "month_idx l = month_idx d + 7"
    by (auto simp: d l month_idx_def)
qed

lemma chunk_end_valid:
  assumes "valid_date cur" and "valid_date stop" and "cur < stop"
    and "chunk_end hp stop cur = Inr l"
  shows "valid_date l" and "cur \<le> l" and "l \<le> stop"
proof -
  from assms(4) obtain L where L: "(if hp then Inr (month_end cur) else add_months 7 (month_end cur)) = Inr L"
    and l: "l = min stop L"
    by (auto simp: chunk_end_def split: sum.splits)
  have "valid_date L \<and> cur \<le> L"
  proof (cases hp)
    case True
    with L month_end_valid[OF assms(1)] show ?thesis by auto
  next
    case False
    with L have "add_months 7 (month_end cur) = Inr L" by simp
    from add_months7_valid(1,2)[OF month_end_valid(1)[OF assms(1)] this] month_end_valid(2)[OF assms(1)]
    show ?thesis by auto
  qed
  with assms(2,3) show "valid_date l" and "cur \<le> l" and "l \<le> stop"
    by (auto simp: l min_def)
qed


lemma chunk_loop_chain:
  assumes "chunk_loop hp stop cur acc = Some (Inr cs')"
    and "valid_date cur" and "valid_date stop"
  shows "\<exists>cs. cs' = acc @ cs \<and> chunk_chain stop cur cs"
proof -
  have "(valid_date cur \<and> valid_date stop) \<longrightarrow>
        (case y of Inl e \<Rightarrow> True | Inr cs' \<Rightarrow> \<exists>cs. cs' = acc @ cs \<and> chunk_chain stop cur cs)"
    if "chunk_loop hp stop cur acc = Some y" for y
  proof (rule chunk_loop.raw_induct
      [where P = "\<lambda>hp stop cur acc y. (valid_date cur \<and> valid_date stop) \<longrightarrow>
        (case y of Inl e \<Rightarrow> True | Inr cs' \<Rightarrow> \<exists>cs. cs' = acc @ cs \<and> chunk_chain stop cur cs)",
       OF _ that], goal_cases)
    case (1 f hp stop cur acc y)
    show ?case
    proof (intro impI, elim conjE)
      assume vc: "valid_date cur" and vs: "valid_date stop"
      show "case y of Inl e \<Rightarrow> True | Inr cs' \<Rightarrow> \<exists>cs. cs' = acc @ cs \<and> chunk_chain stop cur cs"
      proof (cases "cur < stop")
        case False
        with 1(2) show ?thesis by auto
      next
        case True
        show ?thesis
        proof (cases "chunk_end hp stop cur")
          case (Inl e)
          with 1(2) True show ?thesis by auto
        next
          case ce: (Inr l)
          note lv = chunk_end_valid[OF vc vs True ce]
          show ?thesis
          proof (cases "next_day l")
            case (Inl e)
            with 1(2) True ce show ?thesis by auto
          next
            case nd: (Inr c')
            from 1(2) True ce nd have rec: "f hp stop c' (acc @ [(cur, l)]) = Some y" by simp
            from 1(1)[OF rec] next_day_valid[OF lv(1) nd] vs
            have "case y of Inl e \<Rightarrow> True
                  | Inr cs' \<Rightarrow> \<exists>cs. cs' = (acc @ [(cur, l)]) @ cs \<and> chunk_chain stop c' cs"
              by blast
            then show ?thesis
              using nd lv True by (auto split: sum.splits)
          qed
        qed
      qed
    qed
  qed
  from this[OF assms(1)] assms(2,3) show ?thesis by simp
qed

lemma chunk_chain_cover:
  assumes "chunk_chain stop cur cs" and "valid_date cur"
  shows "(\<forall>c\<in>set cs. cur \<le> fst c \<and> fst c \<le> snd c \<and> snd c \<le> stop)
       \<and> sorted_wrt (\<lambda>a b. snd a < fst b) cs
       \<and> {d. valid_date d \<and> cur \<le> d \<and> d < stop} \<subseteq> \<Union>(days_of ` set cs)
       \<and> \<Union>(days_of ` set cs) \<subseteq> {d. valid_date d \<and> cur \<le> d \<and> d \<le> stop}"
  using assms
proof (induction cs arbitrary: cur)
  case Nil
  then show ?case by auto
next
  case (Cons c cs)
  from Cons.prems obtain c' where c: "fst c = cur" "cur < stop" "cur \<le> snd c" "snd c \<le> stop"
    "valid_date (snd c)" and nd: "next_day (snd c) = Inr c'" and ch: "chunk_chain stop c' cs"
    by (auto split: sum.splits)
  note gt = next_day_greater[OF nd]
  note ih = Cons.IH[OF ch next_day_valid[OF c(5) nd]]
  have 1: "\<forall>x\<in>set (c # cs). cur \<le> fst x \<and> fst x \<le> snd x \<and> snd x \<le> stop"
    using ih c gt by fastforce
  have 2: "sorted_wrt (\<lambda>a b. snd a < fst b) (c # cs)"
    using ih gt by fastforce
  have 3: "{d. valid_date d \<and> cur \<le> d \<and> d < stop} \<subseteq> \<Union>(days_of ` set (c # cs))"
  proof
    fix d assume "d \<in> {d. valid_date d \<and> cur \<le> d \<and> d < stop}"
    then have d: "valid_date d" "cur \<le> d" "d < stop" by auto
    show "d \<in> \<Union>(days_of ` set (c # cs))"
    proof (cases "d \<le> snd c")
      case True
      with d c show ?thesis by (simp add: days_of_def)
    next
      case False
      then have "snd c < d" by simp
      from next_day_adjacent[OF c(5) nd d(1) this] d ih show ?thesis by auto
    qed
  qed
  have 4: "\<Union>(days_of ` set (c # cs)) \<subseteq> {d. valid_date d \<and> cur \<le> d \<and> d \<le> stop}"
  proof -
    have "days_of c \<subseteq> {d. valid_date d \<and> cur \<le> d \<and> d \<le> stop}"
      using c by (auto simp: days_of_def)
    moreover have "{d. valid_date d \<and> c' \<le> d \<and> d \<le> stop} \<subseteq> {d. valid_date d \<and> cur \<le> d \<and> d \<le> stop}"
      using gt c by auto
    ultimately show ?thesis using ih by auto
  qed
  from 1 2 3 4 show ?case by blast
qed

lemma month_idx_mono:
  assumes "valid_date a" and "valid_date b" and "a \<le> b"
  shows "month_idx a \<le> month_idx b"
proof -
  obtain y m d where a: "a = (y, m, d)" by (cases a)
  obtain y2 m2 d2 where b: "b = (y2, m2, d2)" by (cases b)
  from assms(3) have "y < y2 \<or> (y = y2 \<and> m \<le> m2)"
    by (auto simp: a b)
  with assms(1,2) show ?thesis
    by (auto simp: a b month_idx_def valid_date_def)
qed

lemma next_day_month_idx:
  assumes "valid_date l" and "next_day l = Inr c"
  shows "month_idx l \<le> month_idx c"
  using assms
  by (cases l) (auto simp: next_day_def month_idx_def valid_date_def split: if_splits)

lemma next_day_month_end:
  assumes "valid_date x" and "next_day (month_end x) = Inr c"
  shows "month_idx c = month_idx x + 1"
  using assms
  by (cases x) (auto simp: next_day_def month_end_def month_idx_def valid_date_def split: if_splits)

lemma chunk_step_advances:
  assumes "valid_date cur" and "valid_date stop" and "cur < stop"
    and "chunk_end hp stop cur = Inr l" and "next_day l = Inr c" and "c < stop"
  shows "month_idx cur < month_idx c"
proof -
  from assms(4) obtain L where L: "(if hp then Inr (month_end cur) else add_months 7 (month_end cur)) = Inr L"
    and l: "l = min stop L"
    by (auto simp: chunk_end_def split: sum.splits)
  from next_day_greater[OF assms(5)] assms(6) have "l < stop" by simp
  then have lL: "l = L" by (simp add: l min_def split: if_splits)
  show ?thesis
  proof (cases hp)
    case True
    with L lL have "l = month_end cur" by simp
    with next_day_month_end[OF assms(1), of c] assms(5) show ?thesis by simp
  next
    case False
    with L have am: "add_months 7 (month_end cur) = Inr L" by simp
    note me = month_end_valid[OF assms(1)]
    from add_months7_valid(1,3)[OF me(1) am]
    have "valid_date L" "month_idx L = month_idx (month_end cur) + 7" by auto
    moreover have "month_idx (month_end cur) = month_idx cur"
      by (cases cur) (simp add: month_end_def month_idx_def)
    moreover have "month_idx L \<le> month_idx c"
      using next_day_month_idx[of L c] \<open>valid_date L\<close> assms(5) lL by simp
    ultimately show ?thesis by simp
  qed
qed

text \<open>The loop ends on every pair of valid dates: it returns a list of chunks or an error.\<close>

lemma chunk_loop_terminates:
  assumes "valid_date cur" and "valid_date stop"
  shows "\<exists>r. chunk_loop hp stop cur acc = Some r"
  using assms(1)
proof (induction "nat (month_idx stop - month_idx cur)" arbitrary: cur acc rule: less_induct)
  case less
  show ?case
  proof (cases "cur < stop")
    case False
    then show ?thesis by (subst chunk_loop.simps) simp
  next
    case True
    show ?thesis
    proof (cases "chunk_end hp stop cur")
      case (Inl e)
      with True show ?thesis by (subst chunk_loop.simps) simp
    next
      case ce: (Inr l)
      note lv = chunk_end_valid[OF less.prems assms(2) True ce]
      show ?thesis
      proof (cases "next_day l")
        case (Inl e)
        with True ce show ?thesis by (subst chunk_loop.simps) simp
      next
        case nd: (Inr c)
        have step: "chunk_loop hp stop cur acc = chunk_loop hp stop c (acc @ [(cur, l)])"
          using True ce nd by (subst chunk_loop.simps) simp
        have vc: "valid_date c" by (rule next_day_valid[OF lv(1) nd])
        show ?thesis
        proof (cases "c < stop")
          case False
          then show ?thesis unfolding step by (subst chunk_loop.simps) simp
        next
          case cs: True
          from chunk_step_advances[OF less.prems assms(2) True ce nd cs]
          have "month_idx cur < month_idx c" .
          moreover have "month_idx c \<le> month_idx stop"
            using month_idx_mono[OF vc assms(2)] cs by simp
          ultimately have "nat (month_idx stop - month_idx c) < nat (month_idx stop - month_idx cur)"
            by simp
          from less.hyps[OF this vc] show ?thesis unfolding step .
        qed
      qed
    qed
  qed
qed

text \<open>
  The loop with its effects visits the chunks of \<open>chunk_loop\<close>: when it returns its
  dictionary, the keys are the chunk starts.
\<close>

lemma raw_daily_loop_chunks:
  assumes "raw_daily_loop hp wt stop cur res w = Some (Inr results, w')"
  shows "\<exists>cs. chunk_loop hp stop cur acc = Some (Inr (acc @ cs))
              \<and> map fst results = map fst res @ map fst cs"
proof -
  have "\<forall>acc results w'. y = (Inr results, w') \<longrightarrow>
          (\<exists>cs. chunk_loop hp stop cur acc = Some (Inr (acc @ cs))
                \<and> map fst results = map fst res @ map fst cs)"
    if "raw_daily_loop hp wt stop cur res w = Some y" for y
  proof (rule raw_daily_loop.raw_induct
      [where P = "\<lambda>hp wt stop cur res w y. \<forall>acc results w'. y = (Inr results, w') \<longrightarrow>
          (\<exists>cs. chunk_loop hp stop cur acc = Some (Inr (acc @ cs))
                \<and> map fst results = map fst res @ map fst cs)",
       OF _ that], goal_cases)
    case (1 f hp wt stop cur res w y)
    show ?case
    proof (intro allI impI)
      fix acc results w'
      assume y: "y = (Inr results, w')"
      show "\<exists>cs. chunk_loop hp stop cur acc = Some (Inr (acc @ cs))
                \<and> map fst results = map fst res @ map fst cs"
      proof (cases "cur < stop")
        case False
        with 1(2) y have "results = res" by auto
        moreover from False have "chunk_loop hp stop cur acc = Some (Inr acc)"
          by (subst chunk_loop.simps) simp
        ultimately show ?thesis by simp
      next
        case True
        from 1(2) True y obtain l df w1 c' w2 where
          ce: "chunk_end hp stop cur = Inr l" and nd: "next_day l = Inr c'"
          and rec: "f hp wt stop c' (res @ [(cur, df)]) w2 = Some y"
          by (auto split: sum.splits option.splits prod.splits)
        from 1(1)[OF rec, rule_format, OF y, of "acc @ [(cur, l)]"]
        obtain cs where cl: "chunk_loop hp stop c' (acc @ [(cur, l)]) = Some (Inr ((acc @ [(cur, l)]) @ cs))"
          and keys: "map fst results = map fst (res @ [(cur, df)]) @ map fst cs"
          by blast
        have "chunk_loop hp stop cur acc = chunk_loop hp stop c' (acc @ [(cur, l)])"
          using True ce nd by (subst chunk_loop.simps) simp
        with cl keys show ?thesis
          by (intro exI[of _ "(cur, l) # cs"]) simp
      qed
    qed
  qed
  from this[OF assms] show ?thesis by blast
qed

text \<open>What the chunks of a returning run cover.\<close>

lemma chunker_cover:
  assumes "chunker start_year stop_year hp today = Some (Inr cs)" and "valid_date today"
  shows "(\<forall>c\<in>set cs. fst c \<le> snd c)
       \<and> sorted_wrt (\<lambda>a b. snd a < fst b) cs
       \<and> {d. valid_date d \<and> (start_year, 1, 1) \<le> d \<and> d < min (stop_year, 12, 31) today}
            \<subseteq> \<Union>(days_of ` set cs)
       \<and> \<Union>(days_of ` set cs)
            \<subseteq> {d. valid_date d \<and> (start_year, 1, 1) \<le> d \<and> d \<le> min (stop_year, 12, 31) today}"
proof -
  from assms(1) have v1: "valid_date (start_year, 1, 1)" and v2: "valid_date (stop_year, 12, 31)"
    and cl: "chunk_loop hp (min (stop_year, 12, 31) today) (start_year, 1, 1) [] = Some (Inr cs)"
    by (auto simp: chunker_def mk_date_def split: if_splits)
  have vs: "valid_date (min (stop_year, 12, 31) today)"
    using v2 assms(2) by (simp add: min_def)
  from chunk_loop_chain[OF cl v1 vs]
  have "chunk_chain (min (stop_year, 12, 31) today) (start_year, 1, 1) cs" by simp
  from chunk_chain_cover[OF this v1] show ?thesis by blast
qed

lemma chunker_terminates:
  assumes "valid_date today"
  shows "\<exists>r. chunker start_year stop_year hp today = Some r"
proof (cases "valid_date (start_year, 1, 1) \<and> valid_date (stop_year, 12, 31)")
  case False
  then show ?thesis by (auto simp: chunker_def mk_date_def)
next
  case True
  then have "valid_date (min (stop_year, 12, 31) today)"
    using assms by (simp add: min_def)
  from chunk_loop_terminates[OF _ this, of "(start_year, 1, 1)" hp "[]"] True
  show ?thesis by (simp add: chunker_def mk_date_def)
qed

text \<open>
  Claim C2 (chunker coverage). The chunks are in order, do not overlap, each has its start
  no later than its end, they lie inside \<open>[start_date, stop_date]\<close> and they cover every
  day before \<open>stop_date\<close> (\<open>chunker_cover\<close>). The day \<open>stop_date\<close> itself is lost when
  it would begin a chunk of its own: the loop of line 64 runs while
  \<^verbatim>\<open>current < stop_date\<close>, so it stops when \<open>current\<close> has reached \<open>stop_date\<close>. With
  today the first of September 2020 the only chunk is January to August, and the first of
  September, which lies in \<open>[start, min(stop, today)]\<close>, is in no chunk.
\<close>

theorem chunker_skips_stop_date:
  "chunker 2020 2020 False (2020, 9, 1) = Some (Inr [((2020, 1, 1), (2020, 8, 31))])
   \<and> valid_date (2020, 9, 1) \<and> ((2020, 1, 1) :: date) \<le> (2020, 9, 1)
   \<and> ((2020, 9, 1) :: date) \<le> min (2020, 12, 31) (2020, 9, 1)
   \<and> (2020, 9, 1) \<notin> \<Union>(days_of ` set [((2020, 1, 1), (2020, 8, 31))])"
  by (simp add: chunker_def mk_date_def valid_date_def chunk_loop.simps chunk_end_def month_end_def
        add_months_def next_day_def days_in_month_def is_leap_def days_of_def)

text \<open>For the same reason a range of one day has no chunk at all.\<close>

lemma chunker_start_equals_stop:
  "chunker 2020 2020 False (2020, 1, 1) = Some (Inr [])"
  by (simp add: chunker_def mk_date_def valid_date_def chunk_loop.simps days_in_month_def
      is_leap_def)

text \<open>
  \<^verbatim>\<open>relativedelta(months=7)\<close> keeps the day of the month: from the end of a short month it
  does not reach the end of a longer one. The loop never starts a chunk in such a month.
\<close>

lemma add_months_keeps_day:
  "add_months 7 (month_end (2021, 2, 1)) = Inr (2021, 9, 28)"
  and "last_day_of_month_after 7 (2021, 2, 1) = (2021, 9, 30)"
  by (simp_all add: add_months_def month_end_def days_in_month_def is_leap_def
      last_day_of_month_after_def)


lemma low_chunk_end:
  assumes "m = 1 \<or> m = 5 \<or> m = 9"
    and "add_months 7 (month_end (y, m, 1)) = Inr l"
  shows "l = last_day_of_month_after 7 (y, m, 1)"
  using assms
  by (auto simp: add_months_def month_end_def last_day_of_month_after_def days_in_month_def Let_def
      split: if_splits)

lemma low_next_start:
  assumes "m = 1 \<or> m = 5 \<or> m = 9"
    and "next_day (last_day_of_month_after 7 (y, m, 1)) = Inr c"
  shows "\<exists>y' m'. c = (y', m', 1) \<and> (m' = 1 \<or> m' = 5 \<or> m' = 9)"
  using assms
  by (auto simp: next_day_def last_day_of_month_after_def days_in_month_def Let_def
      split: if_splits)

lemma chunk_loop_low_rule:
  assumes "chunk_loop False stop cur acc = Some (Inr cs')"
    and "cur < stop \<longrightarrow> month_start_159 cur"
  shows "\<exists>cs. cs' = acc @ cs \<and> rule_chain stop cur cs"
proof -
  have "(hp = False \<and> (cur < stop \<longrightarrow> month_start_159 cur)) \<longrightarrow>
        (case y of Inl e \<Rightarrow> True | Inr cs' \<Rightarrow> \<exists>cs. cs' = acc @ cs \<and> rule_chain stop cur cs)"
    if "chunk_loop hp stop cur acc = Some y" for hp y
  proof (rule chunk_loop.raw_induct
      [where P = "\<lambda>hp stop cur acc y. (hp = False \<and> (cur < stop \<longrightarrow> month_start_159 cur)) \<longrightarrow>
        (case y of Inl e \<Rightarrow> True | Inr cs' \<Rightarrow> \<exists>cs. cs' = acc @ cs \<and> rule_chain stop cur cs)",
       OF _ that], goal_cases)
    case (1 f hp stop cur acc y)
    show ?case
    proof (intro impI, elim conjE)
      assume hp: "hp = False" and inv: "cur < stop \<longrightarrow> month_start_159 cur"
      show "case y of Inl e \<Rightarrow> True | Inr cs' \<Rightarrow> \<exists>cs. cs' = acc @ cs \<and> rule_chain stop cur cs"
      proof (cases "cur < stop")
        case False
        with 1(2) show ?thesis by auto
      next
        case True
        with inv obtain yy m where cur: "cur = (yy, m, 1)" and m: "m = 1 \<or> m = 5 \<or> m = 9"
          by (auto simp: month_start_159_def)
        show ?thesis
        proof (cases "add_months 7 (month_end cur)")
          case (Inl e)
          with 1(2) True hp show ?thesis by (auto simp: chunk_end_def)
        next
          case (Inr L)
          from low_chunk_end[OF m Inr[unfolded cur]]
          have L: "L = last_day_of_month_after 7 cur" by (simp add: cur)
          define l where "l = min stop L"
          have ce: "chunk_end hp stop cur = Inr l"
            by (simp add: chunk_end_def hp Inr l_def)
          show ?thesis
          proof (cases "next_day l")
            case (Inl e)
            with 1(2) True ce show ?thesis by auto
          next
            case nd: (Inr c')
            from 1(2) True ce nd have rec: "f hp stop c' (acc @ [(cur, l)]) = Some y" by simp
            have inv': "c' < stop \<longrightarrow> month_start_159 c'"
            proof
              assume lt: "c' < stop"
              from next_day_greater[OF nd] lt have "l < stop" by simp
              then have "l = L" by (simp add: l_def min_def split: if_splits)
              with nd L low_next_start[OF m, of yy c'] show "month_start_159 c'"
                by (auto simp: cur month_start_159_def)
            qed
            from 1(1)[OF rec] hp inv'
            have "case y of Inl e \<Rightarrow> True
                  | Inr cs' \<Rightarrow> \<exists>cs. cs' = (acc @ [(cur, l)]) @ cs \<and> rule_chain stop c' cs"
              by blast
            then show ?thesis
              using nd L by (auto simp: l_def split: sum.splits)
          qed
        qed
      qed
    qed
  qed
  from this[OF assms(1)] assms(2) show ?thesis by simp
qed

lemma rule_chain_nth:
  assumes "rule_chain stop cur cs"
  shows "(\<forall>i<length cs. snd (cs ! i) = min stop (last_day_of_month_after 7 (fst (cs ! i))))
       \<and> (\<forall>i. Suc i < length cs \<longrightarrow> next_day (snd (cs ! i)) = Inr (fst (cs ! Suc i)))
       \<and> (cs \<noteq> [] \<longrightarrow> fst (hd cs) = cur)"
  using assms
proof (induction cs arbitrary: cur)
  case Nil
  then show ?case by simp
next
  case (Cons c cs)
  show ?case
  proof (cases "next_day (snd c)")
    case (Inl e)
    with Cons.prems show ?thesis by auto
  next
    case (Inr c')
    with Cons.prems have rc: "rule_chain stop c' cs" by simp
    note ih = Cons.IH[OF rc]
    have a: "\<forall>i<length (c # cs). snd ((c # cs) ! i) = min stop (last_day_of_month_after 7 (fst ((c # cs) ! i)))"
    proof (intro allI impI)
      fix i assume "i < length (c # cs)"
      then show "snd ((c # cs) ! i) = min stop (last_day_of_month_after 7 (fst ((c # cs) ! i)))"
        using ih Cons.prems by (cases i) auto
    qed
    have b: "\<forall>i. Suc i < length (c # cs) \<longrightarrow> next_day (snd ((c # cs) ! i)) = Inr (fst ((c # cs) ! Suc i))"
    proof (intro allI impI)
      fix i assume "Suc i < length (c # cs)"
      then show "next_day (snd ((c # cs) ! i)) = Inr (fst ((c # cs) ! Suc i))"
        using ih Inr by (cases i) (auto simp: hd_conv_nth)
    qed
    from a b Cons.prems show ?thesis by simp
  qed
qed

lemma chunker_2020:
  assumes "(2020, 12, 31) \<le> today"
  shows "chunker 2020 2020 False today =
     Some (Inr [((2020, 1, 1), (2020, 8, 31)), ((2020, 9, 1), (2020, 12, 31))])"
proof -
  have m: "min (2020, 12, 31) today = (2020, 12, 31)"
    using assms by (simp add: min_def)
  show ?thesis
    unfolding chunker_def
    by (simp add: m mk_date_def valid_date_def chunk_loop.simps chunk_end_def month_end_def
        add_months_def next_day_def days_in_month_def is_leap_def)
qed

text \<open>
  Claim C3 (chunk-end rule). In low-precision mode every chunk that \<open>_getRawDailyData\<close>
  requests ends on the last day of the month seven months after the month of its start,
  cut to \<open>stop_date\<close>; the next chunk starts on the day after; the first one starts on
  the first of January of \<open>start_year\<close>. The chunks start in January, September and May
  only, and from the ends of these months \<^verbatim>\<open>relativedelta(months=7)\<close> lands on the end
  of the target month. For the year 2020, seen from the 31st of December 2020 or later,
  the chunks are January to August and September to December.
\<close>

theorem low_precision_chunk_rule:
  "(chunker start_year stop_year False today = Some (Inr cs) \<longrightarrow>
      (\<forall>i<length cs. snd (cs ! i) =
          min (min (stop_year, 12, 31) today) (last_day_of_month_after 7 (fst (cs ! i))))
      \<and> (\<forall>i. Suc i < length cs \<longrightarrow> next_day (snd (cs ! i)) = Inr (fst (cs ! Suc i)))
      \<and> (cs \<noteq> [] \<longrightarrow> fst (hd cs) = (start_year, 1, 1)))
   \<and> ((2020, 12, 31) \<le> today' \<longrightarrow>
        chunker 2020 2020 False today' =
          Some (Inr [((2020, 1, 1), (2020, 8, 31)), ((2020, 9, 1), (2020, 12, 31))]))"
proof (intro conjI impI)
  assume run: "chunker start_year stop_year False today = Some (Inr cs)"
  define stop where "stop = min (stop_year, 12, 31) today"
  from run have cl: "chunk_loop False stop (start_year, 1, 1) [] = Some (Inr cs)"
    by (auto simp: chunker_def mk_date_def stop_def split: if_splits)
  have "(start_year, 1, 1) < stop \<longrightarrow> month_start_159 (start_year, 1, 1)"
    by (simp add: month_start_159_def)
  from chunk_loop_low_rule[OF cl this] have "rule_chain stop (start_year, 1, 1) cs"
    by simp
  note r = rule_chain_nth[OF this, unfolded stop_def]
  from r show "\<forall>i<length cs. snd (cs ! i) =
          min (min (stop_year, 12, 31) today) (last_day_of_month_after 7 (fst (cs ! i)))"
    by blast
  from r show "\<forall>i. Suc i < length cs \<longrightarrow> next_day (snd (cs ! i)) = Inr (fst (cs ! Suc i))"
    by blast
  from r show "cs \<noteq> [] \<Longrightarrow> fst (hd cs) = (start_year, 1, 1)"
    by blast
next
  assume "(2020, 12, 31) \<le> today'"
  then show "chunker 2020 2020 False today' =
          Some (Inr [((2020, 1, 1), (2020, 8, 31)), ((2020, 9, 1), (2020, 12, 31))])"
    by (rule chunker_2020)
qed

theorem low_precision_chunk_rule_witness:
  "chunker 2020 2020 False (2021, 1, 7) =
     Some (Inr [((2020, 1, 1), (2020, 8, 31)), ((2020, 9, 1), (2020, 12, 31))])
   \<and> ((2020, 8, 31) :: date) =
       min (min (2020, 12, 31) (2021, 1, 7)) (last_day_of_month_after 7 (2020, 1, 1))
   \<and> ((2020, 12, 31) :: date) =
       min (min (2020, 12, 31) (2021, 1, 7)) (last_day_of_month_after 7 (2020, 9, 1))
   \<and> next_day (2020, 8, 31) = Inr (2020, 9, 1)"
proof -
  let ?cs = "[((2020, 1, 1), (2020, 8, 31)), ((2020, 9, 1), (2020, 12, 31))] :: (date \<times> date) list"
  note t = low_precision_chunk_rule[of 2020 2020 "(2021, 1, 7)" ?cs "(2021, 1, 7)"]
  have le: "((2020, 12, 31) :: date) \<le> (2021, 1, 7)" by simp
  from t le have run: "chunker 2020 2020 False (2021, 1, 7) = Some (Inr ?cs)"
    by blast
  from t run have r: "\<forall>i<length ?cs. snd (?cs ! i) =
          min (min (2020, 12, 31) (2021, 1, 7)) (last_day_of_month_after 7 (fst (?cs ! i)))"
    and n: "\<forall>i. Suc i < length ?cs \<longrightarrow> next_day (snd (?cs ! i)) = Inr (fst (?cs ! Suc i))"
    by blast+
  from r[rule_format, of 0] r[rule_format, of 1] n[rule_format, of 0] run
  show ?thesis by simp
qed

section \<open>The read path\<close>

lemma fmedian_mset:
  assumes "mset xs = mset ys"
  shows "fmedian xs = fmedian ys"
proof -
  have "mset (map fkey (notna xs)) = mset (map fkey (notna ys))"
    using assms by (simp add: notna_def)
  then have "sort (map fkey (notna xs)) = sort (map fkey (notna ys))"
    by (metis mset_sort properties_for_sort sorted_sort)
  then show ?thesis by (simp add: fmedian_def)
qed

lemma mset_permuted_row:
  assumes "mset p = mset [0..<length vs]"
  shows "mset (map (\<lambda>i. vs ! i) p) = mset vs"
proof -
  have "mset (map (\<lambda>i. vs ! i) p) = image_mset (\<lambda>i. vs ! i) (mset p)" by simp
  also have "\<dots> = image_mset (\<lambda>i. vs ! i) (mset [0..<length vs])" using assms by simp
  also have "\<dots> = mset (map (\<lambda>i. vs ! i) [0..<length vs])" by simp
  also have "\<dots> = mset vs" by (simp add: map_nth)
  finally show ?thesis .
qed

lemma tmedian_permute_cols:
  assumes "mset p = mset [0..<length (fst td)]"
    and "\<forall>r\<in>set (snd td). length (snd r) = length (fst td)"
  shows "tmedian (slice_table a b (permute_cols p td)) = tmedian (slice_table a b td)"
proof -
  have row: "fmedian (map (\<lambda>i. vs ! i) p) = fmedian vs" if "(d, vs) \<in> set (snd td)" for d vs
  proof -
    from that assms(2) have "length vs = length (fst td)" by force
    with assms(1) have "mset p = mset [0..<length vs]" by (simp only:)
    then have "mset (map (\<lambda>i. vs ! i) p) = mset vs"
      by (rule mset_permuted_row)
    then show ?thesis by (rule fmedian_mset)
  qed
  have "map (\<lambda>(d, vs). (d, fmedian vs))
          (filter (\<lambda>r. a \<le> fst r \<and> fst r \<le> b) (map (\<lambda>(d, vs). (d, map (\<lambda>i. vs ! i) p)) rs))
        = map (\<lambda>(d, vs). (d, fmedian vs)) (filter (\<lambda>r. a \<le> fst r \<and> fst r \<le> b) rs)"
    if "set rs \<subseteq> set (snd td)" for rs
    using that
  proof (induction rs)
    case Nil
    then show ?case by simp
  next
    case (Cons r rs)
    obtain d vs where r: "r = (d, vs)" by (cases r)
    with Cons.prems have "(d, vs) \<in> set (snd td)" by simp
    from row[OF this] Cons show ?case by (simp add: r)
  qed
  from this[of "snd td"] show ?thesis
    by (simp add: tmedian_def slice_table_def slice_rows_def permute_cols_def)
qed

lemma slice_table_idem: "slice_table a b (slice_table a b t) = slice_table a b t"
  by (simp add: slice_table_def slice_rows_def)

text \<open>
  Claim C8 (order-independence of the uniform aggregation). Take a stored daily table whose
  rows have one cell per column, and permute its columns. The read path with
  \<open>uniformdata = True\<close> gives the same result on the permuted table as on the original
  one: the daily table enters the result only through the median of every row.
\<close>

theorem uniform_read_ignores_column_order:
  assumes "mset p = mset [0..<length (fst td)]"
    and "\<forall>r\<in>set (snd td). length (snd r) = length (fst td)"
  shows "getDailyDataFromDB dbpath word geo cat start_year stop_year True today
           (w\<lparr>files := (files w)(dbfile dbpath cat word geo \<mapsto>
                 [(''monthly'', tm), (''daily'', permute_cols p td)])\<rparr>)
       = getDailyDataFromDB dbpath word geo cat start_year stop_year True today
           (w\<lparr>files := (files w)(dbfile dbpath cat word geo \<mapsto>
                 [(''monthly'', tm), (''daily'', td)])\<rparr>)"
  by (simp add: getDailyDataFromDB_def isfile_def read_excel_def Let_def slice_table_idem
      tmedian_permute_cols[OF assms] split: sum.splits)

theorem uniform_read_ignores_column_order_witness:
  "getDailyDataFromDB ''db'' ''flu'' ''US'' 0 2020 2020 True (2021, 1, 7)
     ((quiet_world (\<lambda>p. None))\<lparr>files := (files (quiet_world (\<lambda>p. None)))
        (dbfile ''db'' 0 ''flu'' ''US'' \<mapsto>
           [(''monthly'', flu_monthly), (''daily'', permute_cols [1, 0] flu_daily)])\<rparr>)
   = Inr (Some [\<lparr>d_date = (2020, 1, 1), d_daily = Fin (90 / 11), d_monthly = Fin 15\<rparr>,
                \<lparr>d_date = (2020, 1, 2), d_daily = Fin (240 / 11), d_monthly = Fin 15\<rparr>,
                \<lparr>d_date = (2020, 2, 1), d_daily = Fin 0, d_monthly = Fin 40\<rparr>,
                \<lparr>d_date = (2020, 2, 2), d_daily = Fin 80, d_monthly = Fin 40\<rparr>])"
proof -
  have 1: "mset [1, 0] = mset [0..<length (fst flu_daily)]"
    by (simp add: flu_daily_def upt_rec numeral_2_eq_2)
  have 2: "\<forall>r\<in>set (snd flu_daily). length (snd r) = length (fst flu_daily)"
    by (simp add: flu_daily_def)
  have 3: "getDailyDataFromDB ''db'' ''flu'' ''US'' 0 2020 2020 True (2021, 1, 7)
     ((quiet_world (\<lambda>p. None))\<lparr>files := (files (quiet_world (\<lambda>p. None)))
        (dbfile ''db'' 0 ''flu'' ''US'' \<mapsto>
           [(''monthly'', flu_monthly), (''daily'', flu_daily)])\<rparr>)
   = Inr (Some [\<lparr>d_date = (2020, 1, 1), d_daily = Fin (90 / 11), d_monthly = Fin 15\<rparr>,
                \<lparr>d_date = (2020, 1, 2), d_daily = Fin (240 / 11), d_monthly = Fin 15\<rparr>,
                \<lparr>d_date = (2020, 2, 1), d_daily = Fin 0, d_monthly = Fin 40\<rparr>,
                \<lparr>d_date = (2020, 2, 2), d_daily = Fin 80, d_monthly = Fin 40\<rparr>])"
    by code_simp
  show ?thesis
    using uniform_read_ignores_column_order[OF 1 2, of "''db''" "''flu''" "''US''" 0 2020 2020
        "(2021, 1, 7)" "quiet_world (\<lambda>p. None)" flu_monthly] 3
    by simp
qed

lemma ffill_from_present: "prev \<noteq> NaN \<Longrightarrow> NaN \<notin> set (ffill_from prev xs)"
  by (induction xs arbitrary: prev) auto

lemma ffill_no_gap: "no_gap (ffill xs)"
  unfolding no_gap_def ffill_def
proof (induction xs)
  case Nil
  then show ?case by simp
next
  case (Cons x xs)
  then show ?case by (simp add: ffill_from_present)
qed

lemma length_ffill_from [simp]: "length (ffill_from prev xs) = length xs"
  by (induction xs arbitrary: prev) auto

lemma length_ffill [simp]: "length (ffill xs) = length xs"
  by (simp add: ffill_def)

lemma scale_by_monthly_monthly_col:
  "\<exists>xs. map r_monthly (scale_by_monthly daily monthly) = ffill xs"
proof -
  define complete where "complete =
    join_left (zip (map fst daily) (zip (map snd daily)
      (ffill (map (\<lambda>r. reindex (resample_M_mean daily) (fst r)) daily)))) monthly"
  define mon where "mon = ffill (map (\<lambda>(d, (v, a), m). orNaN m) complete)"
  define scale where "scale = map2 fdiv mon (map (\<lambda>(d, (v, a), m). a) complete)"
  have len: "length mon = length complete" "length scale = length complete"
    by (simp_all add: mon_def scale_def)
  have "map r_monthly (map (\<lambda>((d, (v, a), m), (mo, sc)).
               \<lparr>r_date = d, r_unscaled = v, r_monthly = mo, r_scale = sc, r_scaled = fmul v sc\<rparr>)
             (zip complete (zip mon scale))) = map (\<lambda>(c, (mo, sc)). mo) (zip complete (zip mon scale))"
    by (auto simp: comp_def split: prod.splits)
  also have "\<dots> = map fst (map snd (zip complete (zip mon scale)))"
    by (auto simp: comp_def split: prod.splits)
  also have "\<dots> = mon"
    using len by simp
  finally show ?thesis
    unfolding scale_by_monthly_def Let_def
    by (auto simp: mon_def complete_def scale_def)
qed

lemma baseline_join_monthly_col:
  "\<exists>xs. map d_monthly (baseline_join a b) = ffill xs"
proof -
  define complete where "complete = join_left a b"
  define mon where "mon = ffill (map (\<lambda>(d, v, m). orNaN m) complete)"
  have len: "length mon = length complete" by (simp add: mon_def)
  have "map d_monthly (map (\<lambda>((d, v, m), mo). \<lparr>d_date = d, d_daily = v, d_monthly = mo\<rparr>)
          (zip complete mon)) = map snd (zip complete mon)"
    by (auto simp: comp_def split: prod.splits)
  also have "\<dots> = mon" using len by simp
  finally show ?thesis
    unfolding baseline_join_def Let_def
    by (auto simp: mon_def complete_def)
qed

lemma getDailyDataOnce_rows:
  assumes "getDailyDataOnce start_year stop_year wait_time today w = Some (Inr rows, w')"
  shows "\<exists>daily monthly. rows = scale_by_monthly daily monthly"
  using assms
  by (auto simp: getDailyDataOnce_def Let_def split: sum.splits option.splits) blast

lemma getDailyDataFromDB_rows:
  assumes "getDailyDataFromDB dbpath word geo cat start_year stop_year u today w = Inr (Some rows)"
  shows "(\<exists>daily monthly. map d_monthly rows = map r_monthly (scale_by_monthly daily monthly))
       \<or> (\<exists>a b. rows = baseline_join a b)"
proof (cases u)
  case True
  with assms obtain daily monthly where
    "rows = map (\<lambda>r. \<lparr>d_date = r_date r, d_daily = r_scaled r, d_monthly = r_monthly r\<rparr>)
              (scale_by_monthly daily monthly)"
    by (auto simp: getDailyDataFromDB_def Let_def split: sum.splits if_splits)
  then have "map d_monthly rows = map r_monthly (scale_by_monthly daily monthly)"
    by (simp add: comp_def)
  then show ?thesis by blast
next
  case False
  with assms obtain a b where "rows = baseline_join a b"
    by (auto simp: getDailyDataFromDB_def Let_def split: sum.splits if_splits)
  then show ?thesis by blast
qed

text \<open>
  Claim C7 (forward-fill completeness). In the table that \<open>getDailyDataOnce\<close> returns and
  in the table that \<open>getDailyDataFromDB\<close> returns, for either value of \<open>uniformdata\<close>, the
  monthly baseline column has no missing value from its first present value on: the column
  is the result of a forward fill (lines 166, 262 and 282).
\<close>

theorem baseline_column_has_no_gap:
  "(getDailyDataOnce start_year stop_year wait_time today w = Some (Inr rows, w')
      \<longrightarrow> no_gap (map r_monthly rows))
   \<and> (getDailyDataFromDB dbpath word geo cat from_year to_year u today2 w2 = Inr (Some rows2)
      \<longrightarrow> no_gap (map d_monthly rows2))"
proof (intro conjI impI)
  assume "getDailyDataOnce start_year stop_year wait_time today w = Some (Inr rows, w')"
  from getDailyDataOnce_rows[OF this] scale_by_monthly_monthly_col
  show "no_gap (map r_monthly rows)"
    by (metis ffill_no_gap)
next
  assume "getDailyDataFromDB dbpath word geo cat from_year to_year u today2 w2 = Inr (Some rows2)"
  from getDailyDataFromDB_rows[OF this] scale_by_monthly_monthly_col baseline_join_monthly_col
  show "no_gap (map d_monthly rows2)"
    by (metis ffill_no_gap)
qed

theorem baseline_column_has_no_gap_witness:
  "(case getDailyDataOnce 2020 2020 5 (2020, 2, 29) ex_world of
      Some (Inr rows, w') \<Rightarrow> length rows = 60 \<and> no_gap (map r_monthly rows)
    | _ \<Rightarrow> False)
   \<and> (case getDailyDataFromDB ''db'' ''flu'' ''US'' 0 2020 2020 False (2021, 1, 7)
              (quiet_world flu_files) of
        Inr (Some rows) \<Rightarrow> length rows = 4 \<and> no_gap (map d_monthly rows)
      | _ \<Rightarrow> False)"
proof -
  have "case getDailyDataOnce 2020 2020 5 (2020, 2, 29) ex_world of
          Some (Inr rows, w') \<Rightarrow> length rows = 60 | _ \<Rightarrow> False"
    by code_simp
  then obtain rows w' where
    1: "getDailyDataOnce 2020 2020 5 (2020, 2, 29) ex_world = Some (Inr rows, w')"
    and 2: "length rows = 60"
    by (auto split: option.splits sum.splits prod.splits)
  have "case getDailyDataFromDB ''db'' ''flu'' ''US'' 0 2020 2020 False (2021, 1, 7)
             (quiet_world flu_files) of
          Inr (Some rows) \<Rightarrow> length rows = 4 | _ \<Rightarrow> False"
    by code_simp
  then obtain rows' where
    3: "getDailyDataFromDB ''db'' ''flu'' ''US'' 0 2020 2020 False (2021, 1, 7)
          (quiet_world flu_files) = Inr (Some rows')"
    and 4: "length rows' = 4"
    by (auto split: option.splits sum.splits)
  from baseline_column_has_no_gap
    [where start_year = 2020 and stop_year = 2020 and wait_time = 5 and today = "(2020, 2, 29)"
       and w = ex_world and rows = rows and w' = w' and dbpath = "''db''" and word = "''flu''"
       and geo = "''US''" and cat = 0 and from_year = 2020 and to_year = 2020 and u = False
       and ?today2.0 = "(2021, 1, 7)" and ?w2.0 = "quiet_world flu_files" and ?rows2.0 = rows']
    1 2 3 4
  show ?thesis by simp
qed

section \<open>Scaling the daily series\<close>

subsection \<open>Sums of present values\<close>

lemma foldl_fadd_NaN [simp]: "foldl fadd NaN xs = NaN"
  by (induction xs) auto









subsection \<open>Forward fill, by position\<close>

lemma ffill_from_all_missing:
  assumes "j < length xs" and "\<forall>k\<le>j. xs ! k = NaN"
  shows "ffill_from prev xs ! j = prev"
  using assms
proof (induction xs arbitrary: j)
  case Nil
  then show ?case by simp
next
  case (Cons x xs)
  from Cons.prems(2) have x: "x = NaN" by (metis le0 nth_Cons_0)
  show ?case
  proof (cases j)
    case 0
    with x show ?thesis by simp
  next
    case (Suc j')
    with Cons.prems have "j' < length xs" "\<forall>k\<le>j'. xs ! k = NaN" by auto
    from Cons.IH[OF this] x Suc show ?thesis by simp
  qed
qed

lemma ffill_from_nth:
  assumes "i \<le> j" and "j < length xs" and "xs ! i \<noteq> NaN"
    and "\<forall>k. i < k \<and> k \<le> j \<longrightarrow> xs ! k = NaN"
  shows "ffill_from prev xs ! j = xs ! i"
  using assms
proof (induction xs arbitrary: i j prev)
  case Nil
  then show ?case by simp
next
  case (Cons x xs)
  show ?case
  proof (cases i)
    case i0: 0
    with Cons.prems have x: "x \<noteq> NaN" by simp
    show ?thesis
    proof (cases j)
      case 0
      with i0 x show ?thesis by simp
    next
      case (Suc j')
      with Cons.prems i0 have "j' < length xs" "\<forall>k\<le>j'. xs ! k = NaN" by auto
      from ffill_from_all_missing[OF this] x i0 Suc show ?thesis by simp
    qed
  next
    case (Suc i')
    with Cons.prems obtain j' where j: "j = Suc j'" by (cases j) auto
    from Cons.prems Suc j have "i' \<le> j'" "j' < length xs" "xs ! i' \<noteq> NaN"
      "\<forall>k. i' < k \<and> k \<le> j' \<longrightarrow> xs ! k = NaN" by auto
    from Cons.IH[OF this] Suc j show ?thesis by simp
  qed
qed

lemma ffill_nth:
  assumes "i \<le> j" and "j < length xs" and "xs ! i \<noteq> NaN"
    and "\<forall>k. i < k \<and> k \<le> j \<longrightarrow> xs ! k = NaN"
  shows "ffill xs ! j = xs ! i"
  unfolding ffill_def by (rule ffill_from_nth[OF assms])

subsection \<open>The monthly means, looked up by date\<close>

lemma fold_min_le: "fold min xs (a :: int) \<le> a" "x \<in> set xs \<Longrightarrow> fold min xs a \<le> x"
proof -
  have "fold min xs a \<le> a \<and> (\<forall>x\<in>set xs. fold min xs a \<le> x)"
  proof (induction xs arbitrary: a)
    case Nil
    then show ?case by simp
  next
    case (Cons y ys)
    from Cons.IH[of "min y a"] show ?case by auto
  qed
  then show "fold min xs a \<le> a" "x \<in> set xs \<Longrightarrow> fold min xs a \<le> x" by auto
qed

lemma fold_max_ge: "(a :: int) \<le> fold max xs a" "x \<in> set xs \<Longrightarrow> x \<le> fold max xs a"
proof -
  have "a \<le> fold max xs a \<and> (\<forall>x\<in>set xs. x \<le> fold max xs a)"
  proof (induction xs arbitrary: a)
    case Nil
    then show ?case by simp
  next
    case (Cons y ys)
    from Cons.IH[of "max y a"] show ?case by auto
  qed
  then show "a \<le> fold max xs a" "x \<in> set xs \<Longrightarrow> x \<le> fold max xs a" by auto
qed

lemma idx_month_start_inj:
  assumes "idx_month_start i = idx_month_start j"
  shows "i = j"
proof -
  from assms have d: "i div 12 = j div 12" and "nat (i mod 12) = nat (j mod 12)"
    by (auto simp: idx_month_start_def)
  then have "i mod 12 = j mod 12"
    by (metis Euclidean_Rings.pos_mod_sign eq_nat_nat_iff zero_less_numeral)
  with d show ?thesis by (metis div_mult_mod_eq)
qed

lemma idx_month_start_month_idx:
  assumes "1 \<le> m" and "m \<le> 12"
  shows "idx_month_start (month_idx (y, m, d)) = (y, m, 1)"
proof -
  define r where "r = int m - 1"
  have r: "0 \<le> r" "r < 12" using assms by (auto simp: r_def)
  have e: "12 * y + int m - 1 = y * 12 + r" by (simp add: r_def)
  have "(y * 12 + r) div 12 = y" "(y * 12 + r) mod 12 = r"
    using r by simp_all
  then show ?thesis
    unfolding idx_month_start_def month_idx_def prod.case e
    using assms by (simp add: r_def)
qed

lemma map_of_month_rows:
  assumes "i \<in> set js"
  shows "map_of (map (\<lambda>i. (idx_month_start i, g i)) js) (idx_month_start i) = Some (g i)"
  using assms
proof (induction js)
  case Nil
  then show ?case by simp
next
  case (Cons j js)
  then show ?case
    by (cases "i = j") (auto dest: idx_month_start_inj)
qed

lemma reindex_resample:
  assumes "(d, v) \<in> set daily" and "valid_date d"
  shows "reindex (resample_M_mean daily) d =
           (if snd (snd d) = 1 then fmean (month_values daily (month_idx d)) else NaN)"
proof -
  obtain y m dd where d: "d = (y, m, dd)" by (cases d)
  from assms(2) have m: "1 \<le> m" "m \<le> 12" by (auto simp: d valid_date_def)
  from assms(1) have ne: "daily \<noteq> []" by auto
  define js where "js = map (\<lambda>r. month_idx (fst r)) daily"
  have mem: "month_idx d \<in> set js"
    using assms(1) by (force simp: js_def)
  have range: "month_idx d \<in> set [fold min js (hd js) .. fold max js (hd js)]"
    using fold_min_le(2)[OF mem] fold_max_ge(2)[OF mem] by simp
  have rs: "resample_M_mean daily =
      map (\<lambda>i. (idx_month_start i, fmean (month_values daily i)))
          [fold min js (hd js) .. fold max js (hd js)]"
    using ne by (simp add: resample_M_mean_def js_def Let_def)
  show ?thesis
  proof (cases "dd = 1")
    case True
    with idx_month_start_month_idx[OF m, of y dd] have "d = idx_month_start (month_idx d)"
      by (simp add: d)
    with map_of_month_rows[OF range, of "\<lambda>i. fmean (month_values daily i)"]
    have "map_of (resample_M_mean daily) d = Some (fmean (month_values daily (month_idx d)))"
      by (simp add: rs)
    with True show ?thesis by (simp add: reindex_def d)
  next
    case False
    have "d \<notin> fst ` set (resample_M_mean daily)"
      using False by (auto simp: rs d idx_month_start_def)
    then have "map_of (resample_M_mean daily) d = None"
      by (simp add: map_of_eq_None_iff)
    with False show ?thesis by (simp add: reindex_def d)
  qed
qed

subsection \<open>The rows of the scaled table\<close>

lemma length_avg_column [simp]: "length (avg_column daily) = length daily"
  by (simp add: avg_column_def)

lemma join_left_rows:
  assumes "(d, a, m) \<in> set (join_left ls rs)"
  shows "(d, a) \<in> set ls"
proof -
  from assms obtain d' a' where in_ls: "(d', a') \<in> set ls"
    and row: "(d, a, m) \<in> set (case filter (\<lambda>r. fst r = d') rs of
                 [] \<Rightarrow> [(d', a', None)]
               | ms \<Rightarrow> map (\<lambda>r. (d', a', Some (snd r))) ms)"
    by (auto simp: join_left_def)
  from row have "d = d' \<and> a = a'"
    by (cases "filter (\<lambda>r. fst r = d') rs") auto
  with in_ls show ?thesis by simp
qed

text \<open>
  Every row of the result comes from a row of the daily series: it has that row's date and
  value, the scale is the filled baseline over the filled monthly mean of that row, and the
  scaled value is the product.
\<close>

lemma scale_by_monthly_row:
  assumes "r \<in> set (scale_by_monthly daily monthly)"
  shows "\<exists>j<length daily. r_date r = fst (daily ! j) \<and> r_unscaled r = snd (daily ! j)
           \<and> r_scale r = fdiv (r_monthly r) (avg_column daily ! j)
           \<and> r_scaled r = fmul (r_unscaled r) (r_scale r)"
proof -
  define complete where "complete =
    join_left (zip (map fst daily) (zip (map snd daily) (avg_column daily))) monthly"
  define mon where "mon = ffill (map (\<lambda>(d, (v, a), m). orNaN m) complete)"
  define scale where "scale = map2 fdiv mon (map (\<lambda>(d, (v, a), m). a) complete)"
  have len: "length mon = length complete"
    by (simp add: mon_def ffill_def)
  from assms obtain c mo sc where mem: "(c, mo, sc) \<in> set (zip complete (zip mon scale))"
    and r: "r = (case c of (d, (v, a), m) \<Rightarrow>
              \<lparr>r_date = d, r_unscaled = v, r_monthly = mo, r_scale = sc, r_scaled = fmul v sc\<rparr>)"
    unfolding scale_by_monthly_def Let_def
    by (auto simp: complete_def mon_def scale_def avg_column_def)
  obtain d v a m where c: "c = (d, (v, a), m)" by (cases c) auto
  from mem obtain t where t: "t < length complete" "complete ! t = c" "mon ! t = mo" "scale ! t = sc"
    by (auto simp: set_zip)
  from t len have "sc = fdiv mo a"
    by (auto simp: scale_def c)
  moreover from t have "c \<in> set complete" by (metis nth_mem)
  then have "(d, (v, a)) \<in> set (zip (map fst daily) (zip (map snd daily) (avg_column daily)))"
    unfolding complete_def c by (rule join_left_rows)
  then obtain j where "j < length daily" "d = fst (daily ! j)" "v = snd (daily ! j)"
    "a = avg_column daily ! j"
    by (auto simp: set_zip)
  ultimately show ?thesis
    by (intro exI[of _ j]) (simp add: r c)
qed

lemma same_month:
  assumes "valid_date d" and "1 \<le> m" and "m \<le> 12" and "month_idx d = month_idx (y, m, 1)"
  shows "\<exists>dd. d = (y, m, dd) \<and> 1 \<le> dd"
proof -
  obtain y' m' dd where d: "d = (y', m', dd)" by (cases d)
  from assms(1) have v: "1 \<le> m'" "m' \<le> 12" "1 \<le> dd" by (auto simp: d valid_date_def)
  from assms(4) have e: "12 * y' + int m' = 12 * y + int m" by (simp add: d month_idx_def)
  have "y' = y" using e v assms(2,3) by arith
  with e have "m' = m" by simp
  with \<open>y' = y\<close> v show ?thesis by (simp add: d)
qed

lemma sorted_dates_nth:
  assumes "sorted_wrt (<) (map fst daily)" and "i < j" and "j < length daily"
  shows "fst (daily ! i) < fst (daily ! j)"
  using sorted_wrt_nth_less[OF assms(1), of i j] assms(2,3) by simp

text \<open>
  In a series sorted by date, a column that is present on the first day of a month and
  missing on every other day is, once filled, constant over the month.
\<close>

lemma fill_in_month:
  assumes sorted: "sorted_wrt (<) (map fst daily)"
    and valid: "\<forall>r\<in>set daily. valid_date (fst r)"
    and i0: "i0 < length daily" "fst (daily ! i0) = (y, m, 1)"
    and j: "j < length daily" "month_idx (fst (daily ! j)) = month_idx (y, m, 1)"
    and col: "length col = length daily" "col ! i0 \<noteq> NaN"
      "\<forall>k<length daily. snd (snd (fst (daily ! k))) \<noteq> 1 \<longrightarrow> col ! k = NaN"
  shows "ffill col ! j = col ! i0"
proof -
  from valid i0 have "valid_date (y, m, 1)" by (metis nth_mem)
  then have m: "1 \<le> m" "m \<le> 12" by (auto simp: valid_date_def)
  from valid j(1) have "valid_date (fst (daily ! j))" by (metis nth_mem)
  from same_month[OF this m j(2)] obtain dj where dj: "fst (daily ! j) = (y, m, dj)" "1 \<le> dj"
    by blast
  have le: "i0 \<le> j"
  proof (rule ccontr)
    assume "\<not> i0 \<le> j"
    then have "j < i0" by simp
    from sorted_dates_nth[OF sorted this i0(1)] show False
      using dj by (simp add: i0(2))
  qed
  have gap: "\<forall>k. i0 < k \<and> k \<le> j \<longrightarrow> col ! k = NaN"
  proof (intro allI impI)
    fix k assume k: "i0 < k \<and> k \<le> j"
    with j(1) have kl: "k < length daily" by simp
    obtain yk mk dk where dk: "fst (daily ! k) = (yk, mk, dk)" by (cases "fst (daily ! k)")
    from sorted_dates_nth[OF sorted _ kl, of i0] k have lo: "(y, m, 1) < (yk, mk, dk)"
      by (simp add: i0(2) dk)
    have hi: "(yk, mk, dk) \<le> (y, m, dj)"
    proof (cases "k = j")
      case True
      then show ?thesis using dk dj by simp
    next
      case False
      with k have "k < j" by simp
      from sorted_dates_nth[OF sorted this j(1)] have "(yk, mk, dk) < (y, m, dj)"
        by (simp only: dk dj)
      then show ?thesis by (rule less_imp_le)
    qed
    from lo hi have "dk \<noteq> 1" by auto
    with col(3) kl show "col ! k = NaN" by (simp add: dk)
  qed
  from ffill_nth[OF le _ col(2) gap] j(1) col(1) show ?thesis by simp
qed

lemma index_of_date:
  assumes "d \<in> fst ` set daily"
  shows "\<exists>i<length daily. fst (daily ! i) = d"
  using assms by (metis imageE in_set_conv_nth)

text \<open>The filled monthly mean of a row is the mean of its month.\<close>

lemma avg_column_in_month:
  assumes sorted: "sorted_wrt (<) (map fst daily)"
    and valid: "\<forall>r\<in>set daily. valid_date (fst r)"
    and first: "(y, m, 1) \<in> fst ` set daily"
    and j: "j < length daily" "month_idx (fst (daily ! j)) = month_idx (y, m, 1)"
    and mean: "fmean (month_values daily (month_idx (y, m, 1))) \<noteq> NaN"
  shows "avg_column daily ! j = fmean (month_values daily (month_idx (y, m, 1)))"
proof -
  from index_of_date[OF first] obtain i0 where i0: "i0 < length daily" "fst (daily ! i0) = (y, m, 1)"
    by blast
  define col where "col = map (\<lambda>r. reindex (resample_M_mean daily) (fst r)) daily"
  have at: "col ! k = (if snd (snd (fst (daily ! k))) = 1
                      then fmean (month_values daily (month_idx (fst (daily ! k)))) else NaN)"
    if "k < length daily" for k
  proof -
    from that have mem: "(fst (daily ! k), snd (daily ! k)) \<in> set daily" by simp
    from that valid have "valid_date (fst (daily ! k))" by (metis nth_mem)
    from reindex_resample[OF mem this] show ?thesis
      using that by (simp add: col_def)
  qed
  have c0: "col ! i0 = fmean (month_values daily (month_idx (y, m, 1)))"
    using at[OF i0(1)] by (simp add: i0(2))
  have "ffill col ! j = col ! i0"
  proof (rule fill_in_month[OF sorted valid i0 j])
    show "length col = length daily" by (simp add: col_def)
    show "col ! i0 \<noteq> NaN" using c0 mean by simp
    show "\<forall>k<length daily. snd (snd (fst (daily ! k))) \<noteq> 1 \<longrightarrow> col ! k = NaN"
      using at by simp
  qed
  with c0 show ?thesis by (simp add: avg_column_def col_def)
qed

subsection \<open>A baseline with one row per date\<close>







lemma fdiv_zero_not_finite: "fdiv x (Fin 0) \<noteq> Fin q"
  by (cases x) auto

lemma fmul_zero_by_quotient: "fmul (Fin 0) (fdiv x (Fin 0)) = NaN"
  by (cases x) (auto simp: Let_def)

text \<open>
  Claim C4 (undefined scale), as the code has it. For a month whose daily values have the
  mean 0 (and whose first day is in the daily series) the division of line 167 does not
  fail, and the scale of every row of the month is the float quotient of the baseline by
  0: an infinity for a baseline that is not 0, \<open>NaN\<close> for a baseline that is 0 or
  missing. It is never a finite value, so it is not the scale of an earlier month. The
  scaled value of a row whose raw value is 0 or missing is \<open>NaN\<close>.
\<close>

theorem zero_mean_month_scale:
  assumes sorted: "sorted_wrt (<) (map fst daily)"
    and valid: "\<forall>r\<in>set daily. valid_date (fst r)"
    and first: "(y, m, 1) \<in> fst ` set daily"
    and mean: "fmean (month_values daily (month_idx (y, m, 1))) = Fin 0"
  shows "\<forall>r\<in>set (scale_by_monthly daily monthly).
            month_idx (r_date r) = month_idx (y, m, 1) \<longrightarrow>
              r_scale r = fdiv (r_monthly r) (Fin 0) \<and> (\<forall>q. r_scale r \<noteq> Fin q)
              \<and> (r_unscaled r = Fin 0 \<or> r_unscaled r = NaN \<longrightarrow> r_scaled r = NaN)"
proof (intro ballI impI)
  fix r assume r: "r \<in> set (scale_by_monthly daily monthly)"
    and mi: "month_idx (r_date r) = month_idx (y, m, 1)"
  from scale_by_monthly_row[OF r] obtain j where j: "j < length daily"
    "r_date r = fst (daily ! j)" "r_unscaled r = snd (daily ! j)"
    "r_scale r = fdiv (r_monthly r) (avg_column daily ! j)"
    "r_scaled r = fmul (r_unscaled r) (r_scale r)"
    by blast
  from mi j(2) have "month_idx (fst (daily ! j)) = month_idx (y, m, 1)" by simp
  from avg_column_in_month[OF sorted valid first j(1) this] mean
  have "avg_column daily ! j = Fin 0" by simp
  with j(4) have sc: "r_scale r = fdiv (r_monthly r) (Fin 0)" by simp
  show "r_scale r = fdiv (r_monthly r) (Fin 0) \<and> (\<forall>q. r_scale r \<noteq> Fin q)
        \<and> (r_unscaled r = Fin 0 \<or> r_unscaled r = NaN \<longrightarrow> r_scaled r = NaN)"
    using sc j(5) by (auto simp: fdiv_zero_not_finite fmul_zero_by_quotient)
qed

text \<open>The run of \<open>getDailyDataOnce\<close> on the scenario returns the scaled table of the two series.\<close>

lemma getDailyDataOnce_scenario:
  "map_option fst (getDailyDataOnce 2020 2020 5 (2020, 2, 29) ex_world)
   = Some (Inr (scale_by_monthly ex_daily ex_monthly))"
  by code_simp


text \<open>
  January has the mean 5 and the scale 2; February has the mean 0. The scale of February
  is \<open>+\<infinity>\<close>, not the 2 that a forward fill from January would give.
\<close>

theorem zero_mean_scale_is_not_forward_filled:
  "fmean (month_values zero_daily (month_idx (2020, 1, 1))) = Fin 5
   \<and> fmean (month_values zero_daily (month_idx (2020, 2, 1))) = Fin 0
   \<and> map r_scale (scale_by_monthly zero_daily ex_monthly) = [Fin 2, Fin 2, PInf, PInf]
   \<and> map r_scaled (scale_by_monthly zero_daily ex_monthly) = [Fin 10, Fin 10, NaN, NaN]"
  by code_simp

theorem zero_mean_month_scale_witness:
  "r_date (scale_by_monthly zero_daily ex_monthly ! 2) = (2020, 2, 1)
   \<and> r_unscaled (scale_by_monthly zero_daily ex_monthly ! 2) = Fin 0
   \<and> r_monthly (scale_by_monthly zero_daily ex_monthly ! 2) = Fin 20
   \<and> r_scale (scale_by_monthly zero_daily ex_monthly ! 2) = PInf
   \<and> r_scaled (scale_by_monthly zero_daily ex_monthly ! 2) = NaN"
proof -
  let ?rows = "scale_by_monthly zero_daily ex_monthly"
  have s: "sorted_wrt (<) (map fst zero_daily)" by code_simp
  have v: "\<forall>r\<in>set zero_daily. valid_date (fst r)" by code_simp
  have f: "(2020, 2, 1) \<in> fst ` set zero_daily" by code_simp
  have m: "fmean (month_values zero_daily (month_idx (2020, 2, 1))) = Fin 0" by code_simp
  note t = zero_mean_month_scale[OF s v f m, of ex_monthly]
  have len: "length ?rows = 4" by code_simp
  have r: "?rows ! 2 \<in> set ?rows" using len by simp
  have e: "r_date (?rows ! 2) = (2020, 2, 1)" "r_unscaled (?rows ! 2) = Fin 0"
    "r_monthly (?rows ! 2) = Fin 20" "month_idx (r_date (?rows ! 2)) = month_idx (2020, 2, 1)"
    by code_simp+
  from t r e(4) have "r_scale (?rows ! 2) = fdiv (r_monthly (?rows ! 2)) (Fin 0)"
    "r_unscaled (?rows ! 2) = Fin 0 \<or> r_unscaled (?rows ! 2) = NaN \<longrightarrow> r_scaled (?rows ! 2) = NaN"
    by blast+
  with e show ?thesis by simp
qed

text \<open>
  The second read path (lines 269 to 276) divides the other way round: the scale is the
  monthly mean of a pull over the baseline, filled forward, and the pull is divided by it.
  A month of zeros has the scale 0 and its days become \<open>NaN\<close>; only when the baseline is
  0 as well is the scale missing and taken from the month before.
\<close>

lemma nonuniform_zero_month:
  "getDailyDataFromDB ''db'' ''flu'' ''US'' 0 2020 2020 False (2021, 1, 7)
     (quiet_world (zero_files (Fin 20)))
   = Inr (Some [\<lparr>d_date = (2020, 1, 1), d_daily = Fin 10, d_monthly = Fin 10\<rparr>,
                \<lparr>d_date = (2020, 1, 2), d_daily = Fin 10, d_monthly = Fin 10\<rparr>,
                \<lparr>d_date = (2020, 2, 1), d_daily = NaN, d_monthly = Fin 20\<rparr>,
                \<lparr>d_date = (2020, 2, 2), d_daily = NaN, d_monthly = Fin 20\<rparr>])"
  and "getDailyDataFromDB ''db'' ''flu'' ''US'' 0 2020 2020 False (2021, 1, 7)
     (quiet_world (zero_files (Fin 0)))
   = Inr (Some [\<lparr>d_date = (2020, 1, 1), d_daily = Fin 10, d_monthly = Fin 10\<rparr>,
                \<lparr>d_date = (2020, 1, 2), d_daily = Fin 10, d_monthly = Fin 10\<rparr>,
                \<lparr>d_date = (2020, 2, 1), d_daily = Fin 0, d_monthly = Fin 0\<rparr>,
                \<lparr>d_date = (2020, 2, 2), d_daily = Fin 0, d_monthly = Fin 0\<rparr>])"
  by code_simp+

end
